theory Spec2Isabelle
  imports Complex_Main
begin

section \<open>Floating-point values\<close>

text \<open>
  The numbers of \<^verbatim>\<open>preprocess_ops.py\<close> are IEEE floating-point numbers: the floats of the
  interpreter have the 64-bit format, the tensors of the library the 32-bit format. A
  value is modelled as a finite real, one of the two infinities, or NaN. The operations
  below give the exact result of an operation, with the exceptional results of IEEE
  arithmetic: a negative argument of the square root, \<open>0 / 0\<close>, \<open>\<infinity> - \<infinity>\<close>, \<open>0 * \<infinity>\<close> and
  \<open>\<infinity> / \<infinity>\<close> give NaN, and NaN propagates through every operation. Zero is unsigned
  and stands for \<open>+0\<close>, which is the only zero divisor this program can build
  (\<open>1 + min_overlap\<close> and \<open>2 * sigma ** 2\<close>). An operation of \<^verbatim>\<open>gaussian_radius\<close>
  returns the exact result rounded to its format (next subsection).
\<close>

datatype fl = Fin real | PInf | NInf | NaN

fun fneg :: "fl \<Rightarrow> fl" where
  "fneg (Fin a) = Fin (- a)"
| "fneg PInf = NInf"
| "fneg NInf = PInf"
| "fneg NaN = NaN"

fun fadd :: "fl \<Rightarrow> fl \<Rightarrow> fl" where
  "fadd NaN y = NaN"
| "fadd x NaN = NaN"
| "fadd (Fin a) (Fin b) = Fin (a + b)"
| "fadd PInf NInf = NaN"
| "fadd NInf PInf = NaN"
| "fadd PInf y = PInf"
| "fadd x PInf = PInf"
| "fadd NInf y = NInf"
| "fadd x NInf = NInf"

definition fsub :: "fl \<Rightarrow> fl \<Rightarrow> fl" where
  "fsub x y = fadd x (fneg y)"

text \<open>The sign of a product or quotient with an infinite operand.\<close>

definition signed_inf :: "bool \<Rightarrow> fl" where
  "signed_inf positive = (if positive then PInf else NInf)"

fun fmul :: "fl \<Rightarrow> fl \<Rightarrow> fl" where
  "fmul NaN y = NaN"
| "fmul x NaN = NaN"
| "fmul (Fin a) (Fin b) = Fin (a * b)"
| "fmul (Fin a) PInf = (if a = 0 then NaN else signed_inf (0 < a))"
| "fmul (Fin a) NInf = (if a = 0 then NaN else signed_inf (a < 0))"
| "fmul PInf (Fin b) = (if b = 0 then NaN else signed_inf (0 < b))"
| "fmul NInf (Fin b) = (if b = 0 then NaN else signed_inf (b < 0))"
| "fmul PInf PInf = PInf"
| "fmul NInf NInf = PInf"
| "fmul PInf NInf = NInf"
| "fmul NInf PInf = NInf"

fun fdiv :: "fl \<Rightarrow> fl \<Rightarrow> fl" where
  "fdiv NaN y = NaN"
| "fdiv x NaN = NaN"
| "fdiv (Fin a) (Fin b) =
     (if b \<noteq> 0 then Fin (a / b) else if a = 0 then NaN else signed_inf (0 < a))"
| "fdiv (Fin a) y = Fin 0"
| "fdiv PInf (Fin b) = signed_inf (0 \<le> b)"
| "fdiv NInf (Fin b) = signed_inf (b < 0)"
| "fdiv x y = NaN"

fun fsqrt :: "fl \<Rightarrow> fl" where
  "fsqrt (Fin a) = (if a < 0 then NaN else Fin (sqrt a))"
| "fsqrt PInf = PInf"
| "fsqrt NInf = NaN"
| "fsqrt NaN = NaN"

fun fexp :: "fl \<Rightarrow> fl" where
  "fexp (Fin a) = Fin (exp a)"
| "fexp PInf = PInf"
| "fexp NInf = Fin 0"
| "fexp NaN = NaN"

text \<open>\<^verbatim>\<open>x ** 2\<close>\<close>

definition fsquare :: "fl \<Rightarrow> fl" where
  "fsquare x = fmul x x"

text \<open>The minimum of two values as \<^verbatim>\<open>tf.reduce_min\<close> takes it: NaN propagates.\<close>

fun fmin :: "fl \<Rightarrow> fl \<Rightarrow> fl" where
  "fmin NaN y = NaN"
| "fmin x NaN = NaN"
| "fmin NInf y = NInf"
| "fmin x NInf = NInf"
| "fmin PInf y = y"
| "fmin x PInf = x"
| "fmin (Fin a) (Fin b) = Fin (min a b)"

subsection \<open>Rounding\<close>

text \<open>
  A binary format is its precision \<open>p\<close> (the number of bits of the significand), its
  least exponent \<open>emin\<close> and the exponent \<open>emax\<close> of the first power of two it cannot
  hold. A real \<open>x\<close> with \<open>2^e \<le> |x| < 2^(e+1)\<close> lies between two neighbouring
  multiples of the quantum \<open>2^(e - p + 1)\<close> (of \<open>2^(emin - p + 1)\<close> below the least
  exponent, where the format has its subnormal numbers); rounding takes the nearer
  multiple, the even one at a tie, and a result of magnitude \<open>2^emax\<close> or more is the
  infinity of its sign.
\<close>

definition pow2 :: "int \<Rightarrow> real" where
  "pow2 k = (if 0 \<le> k then 2 ^ nat k else 1 / 2 ^ nat (- k))"

type_synonym format = "nat \<times> int \<times> int"

definition binary32 :: format where
  "binary32 = (24, - 126, 128)"

definition binary64 :: format where
  "binary64 = (53, - 1022, 1024)"

definition round_half_even :: "real \<Rightarrow> int" where
  "round_half_even t =
     (let n = \<lfloor>t\<rfloor>; d = t - of_int n
      in if d < 1 / 2 then n else if 1 / 2 < d then n + 1 else if even n then n else n + 1)"

definition quantum :: "format \<Rightarrow> real \<Rightarrow> real" where
  "quantum f x = (case f of (p, emin, emax) \<Rightarrow> pow2 (max \<lfloor>log 2 \<bar>x\<bar>\<rfloor> emin - (int p - 1)))"

definition round_real :: "format \<Rightarrow> real \<Rightarrow> fl" where
  "round_real f x =
     (case f of (p, emin, emax) \<Rightarrow>
        if x = 0 then Fin 0
        else let q = quantum f x;
                 y = of_int (round_half_even (x / q)) * q
             in if pow2 emax \<le> \<bar>y\<bar> then signed_inf (0 < y) else Fin y)"

fun round_fl :: "format \<Rightarrow> fl \<Rightarrow> fl" where
  "round_fl f (Fin a) = round_real f a"
| "round_fl f PInf = PInf"
| "round_fl f NInf = NInf"
| "round_fl f NaN = NaN"

section \<open>Errors\<close>

text \<open>
  An exception of the library or of the interpreter ends the call; a function that can
  raise returns either the error or its value.
\<close>

datatype error =
    SliceIndexOutOfBounds
  | RangeInvalid
  | ReshapeSizeMismatch
  | ScatterShapeMismatch
  | ScatterIndexOutOfBounds
  | SplitSizeInvalid
  | AxisOutOfRange
  | ConcatShapeMismatch
  | IntegerOverflow
  | ZeroDivisionError
  | OverflowError

definition bind_result :: "error + 'a \<Rightarrow> ('a \<Rightarrow> error + 'b) \<Rightarrow> error + 'b" where
  "bind_result r f = (case r of Inl e \<Rightarrow> Inl e | Inr v \<Rightarrow> f v)"

section \<open>Tensors\<close>

text \<open>
  A tensor of any rank is its shape and its elements in row-major order, as the library
  stores it. \<open>unravel\<close> turns a position of the flat list into a multi-index,
  \<open>ravel\<close> a multi-index into the position, and \<open>stride\<close> is the distance in the flat
  list between neighbours along one axis.
\<close>

record 'a tensor =
  shape :: "nat list"
  data :: "'a list"

fun unravel :: "nat list \<Rightarrow> nat \<Rightarrow> nat list" where
  "unravel [] q = []"
| "unravel (n # ns) q = (q div prod_list ns) # unravel ns (q mod prod_list ns)"

fun ravel :: "nat list \<Rightarrow> nat list \<Rightarrow> nat" where
  "ravel (n # ns) (i # idx) = i * prod_list ns + ravel ns idx"
| "ravel ns idx = 0"

definition stride :: "nat list \<Rightarrow> nat \<Rightarrow> nat" where
  "stride ns p = prod_list (drop (Suc p) ns)"


text \<open>\<^verbatim>\<open>tf.zeros\<close> and \<^verbatim>\<open>tf.fill\<close>.\<close>

definition fill :: "nat list \<Rightarrow> 'a \<Rightarrow> 'a tensor" where
  "fill dims v = \<lparr>shape = dims, data = replicate (prod_list dims) v\<rparr>"

definition zeros :: "nat list \<Rightarrow> fl tensor" where
  "zeros dims = fill dims (Fin 0)"

text \<open>The element at a multi-index.\<close>

definition element_at :: "'a tensor \<Rightarrow> nat list \<Rightarrow> 'a" where
  "element_at t idx = data t ! ravel (shape t) idx"

text \<open>
  Python slicing \<^verbatim>\<open>xs[b:e]\<close> as the library's strided slice does it: a negative bound
  counts from the end, and the result is then clamped to the list.
\<close>

definition canonical :: "int \<Rightarrow> int \<Rightarrow> int" where
  "canonical n i = (let j = (if i < 0 then n + i else i) in max 0 (min n j))"

definition py_slice :: "int \<Rightarrow> int \<Rightarrow> 'a list \<Rightarrow> 'a list" where
  "py_slice b e xs =
     (let n = int (length xs); b' = canonical n b; e' = canonical n e
      in take (nat (e' - b')) (drop (nat b') xs))"



text \<open>
  \<^verbatim>\<open>xs[i]\<close> on a one-dimensional tensor: a negative index counts from the end, an index
  outside the tensor is an error.
\<close>

definition tensor_index :: "'a list \<Rightarrow> int \<Rightarrow> error + 'a" where
  "tensor_index xs i =
     (if i < - int (length xs) \<or> int (length xs) \<le> i then Inl SliceIndexOutOfBounds
      else Inr (xs ! nat (if i < 0 then int (length xs) + i else i)))"

section \<open>Numbers of the interpreter and of the library\<close>

text \<open>
  A number met by \<^verbatim>\<open>gaussian_radius\<close> is a float of the interpreter (64 bits), or a
  32-bit tensor of the library, which is the list of its elements here: all tensors of
  one call have the shape of \<^verbatim>\<open>det_size[0]\<close>. The integer constants of the source stand
  for the floats of the same value, which is what an operation with a float or a tensor
  makes of them.

  An operator on two floats is the operation of the interpreter, in 64 bits. As soon as
  one operand is a tensor, the other one is converted to a 32-bit tensor (rounded to 32
  bits) and the operation is the elementwise one of the library, in 32 bits, a float
  being broadcast to every element.
\<close>

datatype num = Py fl | T32 "fl list"

definition convert32 :: "fl \<Rightarrow> fl" where
  "convert32 v = round_fl binary32 v"

definition arith :: "(fl \<Rightarrow> fl \<Rightarrow> fl) \<Rightarrow> num \<Rightarrow> num \<Rightarrow> num" where
  "arith f x y =
     (case x of
        Py a \<Rightarrow>
          (case y of
             Py b \<Rightarrow> Py (round_fl binary64 (f a b))
           | T32 ys \<Rightarrow> T32 (map (\<lambda>v. round_fl binary32 (f (convert32 a) v)) ys))
      | T32 xs \<Rightarrow>
          (case y of
             Py b \<Rightarrow> T32 (map (\<lambda>u. round_fl binary32 (f u (convert32 b))) xs)
           | T32 ys \<Rightarrow> T32 (map2 (\<lambda>u v. round_fl binary32 (f u v)) xs ys)))"

text \<open>\<^verbatim>\<open>x + y\<close>, \<^verbatim>\<open>x - y\<close>, \<^verbatim>\<open>x * y\<close> and \<^verbatim>\<open>-x\<close>.\<close>

definition num_add :: "num \<Rightarrow> num \<Rightarrow> num" where
  "num_add x y = arith fadd x y"

definition num_sub :: "num \<Rightarrow> num \<Rightarrow> num" where
  "num_sub x y = arith fsub x y"

definition num_mul :: "num \<Rightarrow> num \<Rightarrow> num" where
  "num_mul x y = arith fmul x y"

definition num_neg :: "num \<Rightarrow> num" where
  "num_neg x = (case x of Py a \<Rightarrow> Py (fneg a) | T32 xs \<Rightarrow> T32 (map fneg xs))"

text \<open>
  \<^verbatim>\<open>x / y\<close>: the interpreter raises \<^verbatim>\<open>ZeroDivisionError\<close> for a float divided by the float
  zero; the library divides by zero as IEEE arithmetic does.
\<close>

definition py_truediv :: "fl \<Rightarrow> fl \<Rightarrow> error + fl" where
  "py_truediv a b =
     (if b = Fin 0 then Inl ZeroDivisionError else Inr (round_fl binary64 (fdiv a b)))"

definition num_truediv :: "num \<Rightarrow> num \<Rightarrow> error + num" where
  "num_truediv x y =
     (case (x, y) of
        (Py a, Py b) \<Rightarrow> bind_result (py_truediv a b) (\<lambda>v. Inr (Py v))
      | _ \<Rightarrow> Inr (arith fdiv x y))"

text \<open>
  \<^verbatim>\<open>x ** 2\<close>: the square, rounded as a product is (the power functions of the
  interpreter and of the library are taken to round an exponent 2 correctly). The
  interpreter raises \<^verbatim>\<open>OverflowError\<close> when the square of a finite float is too large
  for 64 bits; the library returns the infinity.
\<close>

definition py_square :: "fl \<Rightarrow> error + fl" where
  "py_square a =
     (case a of
        Fin v \<Rightarrow> (case round_real binary64 (v * v) of Fin s \<Rightarrow> Inr (Fin s) | _ \<Rightarrow> Inl OverflowError)
      | _ \<Rightarrow> Inr (fmul a a))"

definition num_square :: "num \<Rightarrow> error + num" where
  "num_square x =
     (case x of
        Py a \<Rightarrow> bind_result (py_square a) (\<lambda>v. Inr (Py v))
      | T32 xs \<Rightarrow> Inr (T32 (map (\<lambda>u. round_fl binary32 (fmul u u)) xs)))"

text \<open>
  \<^verbatim>\<open>tf.convert_to_tensor(x)\<close>, which every function of the library applies to its
  argument: a float becomes a 32-bit tensor of no dimension.
\<close>

definition convert_to_tensor :: "num \<Rightarrow> fl list" where
  "convert_to_tensor x = (case x of Py a \<Rightarrow> [convert32 a] | T32 xs \<Rightarrow> xs)"

text \<open>\<^verbatim>\<open>tf.sqrt(x)\<close>.\<close>

definition tf_sqrt :: "num \<Rightarrow> num" where
  "tf_sqrt x = T32 (map (\<lambda>u. round_fl binary32 (fsqrt u)) (convert_to_tensor x))"

text \<open>
  \<^verbatim>\<open>tf.reduce_min(rs, axis=0)\<close> on a list of tensors of one shape: the elementwise
  minimum, in which NaN propagates.
\<close>

definition reduce_min_axis0 :: "num list \<Rightarrow> fl list" where
  "reduce_min_axis0 rs =
     (case map convert_to_tensor rs of [] \<Rightarrow> [] | r # rest \<Rightarrow> foldl (map2 fmin) r rest)"

section \<open>Gaussian radius\<close>

text \<open>
  \<^verbatim>\<open>_smallest_positive_root(a, b, c)\<close>: the square root of the discriminant, then
  \<^verbatim>\<open>(-b + discriminant) / (2.0)\<close>.
\<close>

definition smallest_positive_root :: "num \<Rightarrow> num \<Rightarrow> num \<Rightarrow> error + num" where
  "smallest_positive_root a b c =
     bind_result (num_square b) (\<lambda>b2.
       let discriminant = tf_sqrt (num_sub b2 (num_mul (num_mul (Py (Fin 4)) a) c))
       in num_truediv (num_add (num_neg b) discriminant) (Py (Fin 2)))"

text \<open>
  \<^verbatim>\<open>det_size\<close> is a tuple of floats of the interpreter or a 32-bit tensor. An item of a
  tuple is a float; an item of a tensor is the sub-tensor at that position of the first
  axis, and a tensor of no dimension has no item. The result has the shape of such an
  item.
\<close>

datatype det = PyTuple "fl list" | Tensor32 "fl tensor"

definition det_item :: "det \<Rightarrow> int \<Rightarrow> error + num" where
  "det_item det_size i =
     (case det_size of
        PyTuple vs \<Rightarrow> bind_result (tensor_index vs i) (\<lambda>v. Inr (Py v))
      | Tensor32 t \<Rightarrow>
          (case shape t of
             [] \<Rightarrow> Inl SliceIndexOutOfBounds
           | n # s \<Rightarrow>
               bind_result (tensor_index [0..<n] i) (\<lambda>k.
                 Inr (T32 (take (prod_list s) (drop (k * prod_list s) (data t)))))))"

definition item_shape :: "det \<Rightarrow> nat list" where
  "item_shape det_size = (case det_size of PyTuple vs \<Rightarrow> [] | Tensor32 t \<Rightarrow> tl (shape t))"

text \<open>
  \<^verbatim>\<open>gaussian_radius(det_size, min_overlap)\<close>, with \<^verbatim>\<open>min_overlap\<close> a float of the
  interpreter, as its default is.
\<close>

definition gaussian_radius :: "det \<Rightarrow> fl \<Rightarrow> error + fl tensor" where
  "gaussian_radius det_size min_overlap =
     bind_result (det_item det_size 0) (\<lambda>height.
     bind_result (det_item det_size 1) (\<lambda>width.
     let min_overlap = Py min_overlap;
         a1 = Py (Fin 1);
         b1 = num_neg (num_add height width)
     in bind_result
          (num_truediv (num_mul (num_mul width height) (num_sub (Py (Fin 1)) min_overlap))
             (num_add (Py (Fin 1)) min_overlap)) (\<lambda>c1.
        bind_result (smallest_positive_root a1 b1 c1) (\<lambda>r1.
        let a2 = Py (Fin 4);
            b2 = num_mul (Py (Fin (- 2))) (num_add height width);
            c2 = num_mul (num_mul (num_sub (Py (Fin 1)) min_overlap) width) height
        in bind_result (smallest_positive_root a2 b2 c2) (\<lambda>r2.
        let a3 = num_mul (Py (Fin 4)) min_overlap;
            b3 = num_mul (num_mul (Py (Fin 2)) min_overlap) (num_add height width);
            c3 = num_mul (num_mul (num_sub min_overlap (Py (Fin 1))) width) height
        in bind_result (smallest_positive_root a3 b3 c3) (\<lambda>r3.
             Inr \<lparr>shape = item_shape det_size, data = reduce_min_axis0 [r1, r2, r3]\<rparr>))))))"

section \<open>The radius as the specification words it\<close>








section \<open>Gaussian kernel\<close>

text \<open>
  \<^verbatim>\<open>tf.range(limit)\<close> and \<^verbatim>\<open>tf.range(start, limit)\<close> on integers. The library rejects a
  limit below the start (\<^verbatim>\<open>Requires start <= limit when delta > 0\<close>); the range is empty
  when the two are equal.
\<close>

definition tf_range :: "int \<Rightarrow> int \<Rightarrow> error + int list" where
  "tf_range start limit =
     (if limit < start then Inl RangeInvalid else Inr [start..limit - 1])"

text \<open>
  \<^verbatim>\<open>_gaussian_penalty(radius)\<close>: a two-dimensional array as the list of its rows. The
  column \<^verbatim>\<open>x\<close> is broadcast against the row \<^verbatim>\<open>y\<close>, so entry \<open>(i, j)\<close> is computed from
  \<open>range_width ! i\<close> and \<open>range_width ! j\<close>. A radius below 0 makes \<^verbatim>\<open>width\<close> negative, and
  \<^verbatim>\<open>tf.range(width)\<close> raises. The values of the kernel are kept as exact reals.
\<close>

definition gaussian_exponent :: "fl \<Rightarrow> fl \<Rightarrow> fl \<Rightarrow> fl" where
  "gaussian_exponent sigma x y =
     fdiv (fsub (fmul (Fin (- 1)) (fsquare x)) (fsquare y)) (fmul (Fin 2) (fsquare sigma))"

definition gaussian_penalty :: "int \<Rightarrow> error + fl list list" where
  "gaussian_penalty radius =
     (let width = 2 * radius + 1;
          sigma = Fin (real_of_int radius / 3)
      in bind_result (tf_range 0 width) (\<lambda>range_width.
           let range_width = map (\<lambda>i. Fin (real_of_int (i - radius))) range_width
           in Inr (map (\<lambda>x. map (\<lambda>y. fexp (gaussian_exponent sigma x y)) range_width)
                     range_width)))"

section \<open>Cartesian product\<close>

text \<open>
  \<^verbatim>\<open>tf.meshgrid\<close> with \<^verbatim>\<open>indexing='ij'\<close>: one grid for each input; all grids have the
  shape made of the inputs' lengths, and grid \<open>i\<close> holds at a multi-index the element of
  input \<open>i\<close> that the multi-index selects on axis \<open>i\<close>.
\<close>

definition meshgrid_ij :: "'a list list \<Rightarrow> 'a tensor list" where
  "meshgrid_ij tensors =
     (let ns = map length tensors
      in map (\<lambda>i. \<lparr>shape = ns,
                    data = map (\<lambda>q. (tensors ! i) ! (unravel ns q ! i)) [0..<prod_list ns]\<rparr>)
           [0..<length tensors])"

text \<open>
  \<^verbatim>\<open>tf.stack\<close> along a new first axis, for tensors of one shape (the grids of one
  \<^verbatim>\<open>meshgrid\<close> call); nothing stacked gives the empty vector.
\<close>

definition stack :: "'a tensor list \<Rightarrow> 'a tensor" where
  "stack ts =
     \<lparr>shape = length ts # (case ts of [] \<Rightarrow> [] | t # _ \<Rightarrow> shape t),
      data = concat (map data ts)\<rparr>"

text \<open>
  \<^verbatim>\<open>tf.transpose(t, perm)\<close>: axis \<open>d\<close> of the result is axis \<open>perm ! d\<close> of the input, so
  the element at a multi-index of the result is found in the input by walking each
  coordinate with the input's stride of the permuted axis.
\<close>

definition transpose_perm :: "'a tensor \<Rightarrow> nat list \<Rightarrow> 'a tensor" where
  "transpose_perm t perm =
     (let dims = map (\<lambda>p. shape t ! p) perm
      in \<lparr>shape = dims,
          data = map (\<lambda>q. data t ! sum_list (map2 (\<lambda>j p. j * stride (shape t) p) (unravel dims q) perm))
                   [0..<prod_list dims]\<rparr>)"

text \<open>
  \<^verbatim>\<open>tf.reshape(t, (-1, k))\<close>. For \<open>k > 0\<close> the number of elements must be a multiple of
  \<open>k\<close>, and the missing size is the quotient. For \<open>k = 0\<close> the library leaves the
  sizes 0 out of the count: the missing size is the product of the sizes of \<open>t\<close> other
  than 0, and \<open>t\<close> must have no element.
\<close>

definition reshape_rows :: "'a tensor \<Rightarrow> nat \<Rightarrow> error + 'a tensor" where
  "reshape_rows t k =
     (if k = 0 then
        (if data t \<noteq> [] then Inl ReshapeSizeMismatch
         else Inr \<lparr>shape = [prod_list (filter (\<lambda>d. 0 < d) (shape t)), 0], data = []\<rparr>)
      else if length (data t) mod k \<noteq> 0 then Inl ReshapeSizeMismatch
      else Inr \<lparr>shape = [length (data t) div k, k], data = data t\<rparr>)"

text \<open>The rows of a two-dimensional tensor.\<close>

definition rows_of :: "'a tensor \<Rightarrow> 'a list list" where
  "rows_of t =
     (case shape t of
        [n, k] \<Rightarrow> map (\<lambda>r. take k (drop (r * k) (data t))) [0..<n]
      | _ \<Rightarrow> [])"

definition cartesian_product :: "'a list list \<Rightarrow> int \<Rightarrow> error + 'a tensor" where
  "cartesian_product tensors repeat =
     (let tensors = concat (replicate (nat repeat) tensors)
      in reshape_rows
           (transpose_perm (stack (meshgrid_ij tensors))
              (map (\<lambda>i. i + 1) [0..<length tensors] @ [0]))
           (length tensors))"

section \<open>Heatmap rasterizer\<close>

text \<open>
  \<^verbatim>\<open>tf.tensor_scatter_nd_update(tensor, indices, updates)\<close> with full-depth indices: one
  update for each index row, every row inside the tensor (the CPU kernel rejects an
  index outside), and the updates written in order.
\<close>

definition index_in_bounds :: "nat list \<Rightarrow> int list \<Rightarrow> bool" where
  "index_in_bounds dims idx =
     (length idx = length dims \<and> list_all2 (\<lambda>i n. 0 \<le> i \<and> i < int n) idx dims)"

definition scatter_write :: "nat list \<Rightarrow> 'a list \<Rightarrow> int list \<times> 'a \<Rightarrow> 'a list" where
  "scatter_write dims d p = d[ravel dims (map nat (fst p)) := snd p]"

definition tensor_scatter_nd_update ::
  "'a tensor \<Rightarrow> int tensor \<Rightarrow> 'a list \<Rightarrow> error + 'a tensor" where
  "tensor_scatter_nd_update t indices updates =
     (let rows = rows_of indices
      in if length rows \<noteq> length updates then Inl ScatterShapeMismatch
         else if \<not> list_all (index_in_bounds (shape t)) rows then Inl ScatterIndexOutOfBounds
         else Inr (t\<lparr>data := foldl (scatter_write (shape t)) (data t) (zip rows updates)\<rparr>))"

text \<open>
  \<^verbatim>\<open>draw_gaussian(hm_shape, blob, dtype, scaling_factor)\<close>. The blob is taken after its
  cast to integers, \<^verbatim>\<open>dtype\<close> is the floating-point type of this model, and
  \<^verbatim>\<open>scaling_factor\<close> is the integer of the docstring. The function is cut at its
  intermediate values: the clip margins \<^verbatim>\<open>left, right, top, bottom\<close> (\<open>top'\<close> where
  a pattern binds it, \<open>top\<close> being a constant of the logic), the update values
  \<^verbatim>\<open>gaussian * scaling_factor\<close> and the index tensor \<^verbatim>\<open>heatmap_indices\<close>. The three
  calls of \<^verbatim>\<open>tf.range\<close> (one in the kernel, two for the indices) fail with the same
  error, so the order in which the graph runs them does not show in the result. The
  integers are unbounded; the 32-bit operations of the source agree with them as long
  as no value leaves the 32-bit range.
\<close>

definition clip_margins :: "nat \<times> nat \<times> nat \<Rightarrow> int \<times> int \<times> int \<times> int \<Rightarrow> int \<times> int \<times> int \<times> int" where
  "clip_margins hm_shape blob =
     (case hm_shape of (H, W, C) \<Rightarrow>
      case blob of (obj_class, x, y, radius) \<Rightarrow>
        let height = int H; width = int W;
            left = min x radius;
            right = min (width - x) (radius + 1);
            top = min y radius;
            bottom = min (height - y) (radius + 1)
        in (left, right, top, bottom))"

definition gaussian_updates ::
  "nat \<times> nat \<times> nat \<Rightarrow> int \<times> int \<times> int \<times> int \<Rightarrow> int \<Rightarrow> error + fl list" where
  "gaussian_updates hm_shape blob scaling_factor =
     (case clip_margins hm_shape blob of (left, right, top', bottom) \<Rightarrow>
      case blob of (obj_class, x, y, radius) \<Rightarrow>
        bind_result (gaussian_penalty radius) (\<lambda>gaussian.
          let gaussian_clip = map (py_slice (radius - left) (radius + right))
                                (py_slice (radius - top') (radius + bottom) gaussian);
              gaussian_flat = concat gaussian_clip
          in Inr (map (\<lambda>g. fmul g (Fin (real_of_int scaling_factor))) gaussian_flat)))"

definition heatmap_indices ::
  "nat \<times> nat \<times> nat \<Rightarrow> int \<times> int \<times> int \<times> int \<Rightarrow> error + int tensor" where
  "heatmap_indices hm_shape blob =
     (case clip_margins hm_shape blob of (left, right, top', bottom) \<Rightarrow>
      case blob of (obj_class, x, y, radius) \<Rightarrow>
        bind_result (tf_range (y - top') (y + bottom)) (\<lambda>ys.
        bind_result (tf_range (x - left) (x + right)) (\<lambda>xs.
          cartesian_product [ys, xs, [obj_class]] 1)))"

definition draw_gaussian ::
  "nat \<times> nat \<times> nat \<Rightarrow> int \<times> int \<times> int \<times> int \<Rightarrow> int \<Rightarrow> error + fl tensor" where
  "draw_gaussian hm_shape blob scaling_factor =
     (case hm_shape of (H, W, C) \<Rightarrow>
        let gaussian_heatmap = zeros [H, W, C]
        in bind_result (gaussian_updates hm_shape blob scaling_factor) (\<lambda>updates.
           bind_result (heatmap_indices hm_shape blob) (\<lambda>indices.
             tensor_scatter_nd_update gaussian_heatmap indices updates)))"

section \<open>Image shape\<close>

text \<open>
  \<^verbatim>\<open>get_image_shape(image)\<close> reads nothing of the image but its shape, which is the
  argument here.
\<close>

definition get_image_shape :: "nat list \<Rightarrow> error + nat \<times> nat" where
  "get_image_shape image_shape =
     (if length image_shape = 4 then
        bind_result (tensor_index image_shape 2) (\<lambda>width.
        bind_result (tensor_index image_shape 1) (\<lambda>height. Inr (height, width)))
      else
        bind_result (tensor_index image_shape 1) (\<lambda>width.
        bind_result (tensor_index image_shape 0) (\<lambda>height. Inr (height, width))))"

section \<open>Fixed-length padding\<close>










section \<open>Properties of rounding\<close>

lemma pow2_pos: "0 < pow2 k"
  by (simp add: pow2_def)

lemma pow2_powr: "pow2 k = 2 powr (of_int k)"
proof (cases "0 \<le> k")
  case True
  then have "(2::real) powr (of_int k) = 2 powr (real (nat k))" by simp
  also have "\<dots> = 2 ^ nat k" by (simp add: powr_realpow)
  finally show ?thesis using True by (simp add: pow2_def)
next
  case False
  then have "(2::real) powr (of_int k) = 2 powr (- real (nat (- k)))" by simp
  also have "\<dots> = 1 / 2 powr (real (nat (- k)))" by (simp add: powr_minus field_simps)
  also have "\<dots> = 1 / 2 ^ nat (- k)" by (simp add: powr_realpow)
  finally show ?thesis using False by (simp add: pow2_def)
qed

lemma pow2_add: "pow2 (j + k) = pow2 j * pow2 k"
  by (simp add: pow2_powr powr_add)

lemma pow2_mono: "j \<le> k \<Longrightarrow> pow2 j \<le> pow2 k"
  by (simp add: pow2_powr)

lemma floor_log2:
  assumes "pow2 e \<le> \<bar>x\<bar>" "\<bar>x\<bar> < pow2 (e + 1)"
  shows "\<lfloor>log 2 \<bar>x\<bar>\<rfloor> = e"
proof -
  have pos: "0 < \<bar>x\<bar>" using assms(1) pow2_pos[of e] by linarith
  have "of_int e \<le> log 2 \<bar>x\<bar>"
    using assms(1) pos by (simp add: le_log_iff pow2_powr)
  moreover have "log 2 \<bar>x\<bar> < of_int e + 1"
    using assms(2) pos by (simp add: log_less_iff pow2_powr add.commute)
  ultimately show ?thesis by linarith
qed

lemma round_half_even_nearest:
  assumes "\<bar>t - of_int n\<bar> < 1 / 2"
  shows "round_half_even t = n"
proof (cases "of_int n \<le> t")
  case True
  then have "\<lfloor>t\<rfloor> = n" using assms by linarith
  then show ?thesis using assms True by (simp add: round_half_even_def)
next
  case False
  then have f: "\<lfloor>t\<rfloor> = n - 1" using assms by linarith
  have "1 / 2 < t - of_int (n - 1)" using assms False by simp
  then show ?thesis using f by (simp add: round_half_even_def Let_def)
qed

lemma quantum_normal:
  assumes "pow2 e \<le> \<bar>x\<bar>" "\<bar>x\<bar> < pow2 (e + 1)" "emin \<le> e"
  shows "quantum (p, emin, emax) x = pow2 (e - (int p - 1))"
  using floor_log2[OF assms(1,2)] assms(3) by (simp add: quantum_def max_def)

lemma round_real_eqI:
  assumes "pow2 e \<le> \<bar>x\<bar>" "\<bar>x\<bar> < pow2 (e + 1)" "emin \<le> e"
    and "\<bar>x - of_int n * pow2 (e - (int p - 1))\<bar> < pow2 (e - (int p - 1)) / 2"
    and "\<bar>of_int n * pow2 (e - (int p - 1))\<bar> < pow2 emax"
  shows "round_real (p, emin, emax) x = Fin (of_int n * pow2 (e - (int p - 1)))"
proof -
  let ?q = "pow2 (e - (int p - 1))"
  have q: "0 < ?q" by (rule pow2_pos)
  have x: "x \<noteq> 0" using assms(1) pow2_pos[of e] by auto
  have qq: "quantum (p, emin, emax) x = ?q" using assms(1-3) by (rule quantum_normal)
  have "\<bar>x / ?q - of_int n\<bar> = \<bar>x - of_int n * ?q\<bar> / ?q"
    using q by (simp add: field_simps abs_mult abs_divide flip: abs_mult_pos)
  also have "\<dots> < 1 / 2" using assms(4) q by (simp add: field_simps)
  finally have "round_half_even (x / ?q) = n" by (rule round_half_even_nearest)
  then show ?thesis using x qq assms(5) by (simp add: round_real_def Let_def)
qed

lemma sqrt_lower: "0 \<le> l \<Longrightarrow> l * l \<le> a \<Longrightarrow> l \<le> sqrt a"
  by (metis abs_of_nonneg real_sqrt_abs2 real_sqrt_le_iff)

lemma sqrt_lower_strict: "0 \<le> l \<Longrightarrow> l * l < a \<Longrightarrow> l < sqrt a"
  by (metis abs_of_nonneg real_sqrt_abs2 real_sqrt_less_iff)

lemma sqrt_upper_strict: "0 \<le> u \<Longrightarrow> a < u * u \<Longrightarrow> sqrt a < u"
  by (metis abs_of_nonneg real_sqrt_abs2 real_sqrt_less_iff)

lemma round_sqrt_eqI:
  assumes "0 \<le> a"
    and "pow2 e * pow2 e \<le> a" "a < pow2 (e + 1) * pow2 (e + 1)" "emin \<le> e"
    and "y = of_int n * pow2 (e - (int p - 1))"
    and "pow2 (e - (int p - 1)) / 2 \<le> y"
    and "(y - pow2 (e - (int p - 1)) / 2) * (y - pow2 (e - (int p - 1)) / 2) < a"
    and "a < (y + pow2 (e - (int p - 1)) / 2) * (y + pow2 (e - (int p - 1)) / 2)"
    and "y < pow2 emax"
  shows "round_real (p, emin, emax) (sqrt a) = Fin y"
proof -
  let ?h = "pow2 (e - (int p - 1)) / 2"
  have h: "0 < ?h" using pow2_pos[of "e - (int p - 1)"] by simp
  have s0: "0 \<le> sqrt a" using assms(1) by simp
  have lo: "pow2 e \<le> sqrt a"
    using pow2_pos[of e] assms(2) by (intro sqrt_lower) simp_all
  have hi: "sqrt a < pow2 (e + 1)"
    using pow2_pos[of "e + 1"] assms(3) by (intro sqrt_upper_strict) simp_all
  have l2: "y - ?h < sqrt a" using assms(6,7) by (intro sqrt_lower_strict) simp_all
  have u2: "sqrt a < y + ?h" using assms(6,8) h by (intro sqrt_upper_strict) simp_all
  have near: "\<bar>sqrt a - of_int n * pow2 (e - (int p - 1))\<bar> < ?h"
    using l2 u2 unfolding assms(5) by linarith
  have y0: "0 \<le> y" using assms(6) h by linarith
  have fin: "\<bar>of_int n * pow2 (e - (int p - 1))\<bar> < pow2 emax"
    using assms(9) y0 unfolding assms(5) by simp
  have "round_real (p, emin, emax) (sqrt a) = Fin (of_int n * pow2 (e - (int p - 1)))"
    using lo hi s0 assms(4) near fin by (intro round_real_eqI) simp_all
  then show ?thesis using assms(5) by simp
qed

lemma round_real_zero: "round_real f 0 = Fin 0"
  by (cases f) (simp add: round_real_def)

lemma round_real_tieI:
  assumes "pow2 e \<le> \<bar>x\<bar>" "\<bar>x\<bar> < pow2 (e + 1)" "emin \<le> e"
    and "x = (of_int n + 1 / 2) * pow2 (e - (int p - 1))"
    and "m = (if even n then n else n + 1)"
    and "\<bar>of_int m * pow2 (e - (int p - 1))\<bar> < pow2 emax"
  shows "round_real (p, emin, emax) x = Fin (of_int m * pow2 (e - (int p - 1)))"
proof -
  let ?q = "pow2 (e - (int p - 1))"
  have q: "0 < ?q" by (rule pow2_pos)
  have x: "x \<noteq> 0" using assms(1) pow2_pos[of e] by auto
  have qq: "quantum (p, emin, emax) x = ?q" using assms(1-3) by (rule quantum_normal)
  have t: "x / ?q = of_int n + 1 / 2" using q assms(4) by simp
  have "\<lfloor>of_int n + (1 / 2 :: real)\<rfloor> = n" by linarith
  then have "round_half_even (x / ?q) = m"
    unfolding t assms(5) by (simp add: round_half_even_def Let_def)
  then show ?thesis using x qq assms(6) by (simp add: round_real_def Let_def)
qed

lemma binade_exists:
  assumes "x \<noteq> 0"
  shows "pow2 \<lfloor>log 2 \<bar>x\<bar>\<rfloor> \<le> \<bar>x\<bar> \<and> \<bar>x\<bar> < pow2 (\<lfloor>log 2 \<bar>x\<bar>\<rfloor> + 1)"
proof -
  define e where "e = \<lfloor>log 2 \<bar>x\<bar>\<rfloor>"
  have pos: "0 < \<bar>x\<bar>" using assms by simp
  have one: "(1::real) < 2" by simp
  have le: "of_int e \<le> log 2 \<bar>x\<bar>" by (simp add: e_def)
  have lt: "log 2 \<bar>x\<bar> < of_int (e + 1)" unfolding e_def by linarith
  have a: "2 powr (of_int e) \<le> \<bar>x\<bar>"
    using le le_log_iff[OF one pos, of "of_int e"] by blast
  have b: "\<bar>x\<bar> < 2 powr (of_int (e + 1))"
    using lt log_less_iff[OF one pos, of "of_int (e + 1)"] by blast
  show ?thesis using a b unfolding pow2_powr e_def by blast
qed

lemma pow2_less_cancel: "pow2 j < pow2 k \<Longrightarrow> j < k"
  by (simp add: pow2_powr)

lemma pow2_nat: "pow2 (int n) = 2 ^ n"
  by (simp add: pow2_def)

lemma round_real_integer:
  assumes int: "x \<in> \<int>" and small: "\<bar>x\<bar> < 2 ^ p"
    and fmt: "emin \<le> 0" "int p \<le> emax"
  shows "round_real (p, emin, emax) x = Fin x"
proof (cases "x = 0")
  case True
  then show ?thesis by (simp add: round_real_zero)
next
  case False
  obtain k where k: "x = of_int k" using int by (auto elim: Ints_cases)
  define e where "e = \<lfloor>log 2 \<bar>x\<bar>\<rfloor>"
  have bin: "pow2 e \<le> \<bar>x\<bar>" "\<bar>x\<bar> < pow2 (e + 1)"
    using binade_exists[OF False] by (simp_all add: e_def)
  have "k \<noteq> 0" using False k by simp
  then have "1 \<le> \<bar>k\<bar>" by linarith
  then have one: "1 \<le> \<bar>x\<bar>" unfolding k by (metis of_int_1_le_iff of_int_abs)
  have "pow2 0 < pow2 (e + 1)" using one bin(2) by (simp add: pow2_def)
  then have e0: "0 \<le> e" using pow2_less_cancel[of 0 "e + 1"] by linarith
  have "pow2 e < pow2 (int p)" using bin(1) small by (simp add: pow2_nat)
  then have ep: "e < int p" by (rule pow2_less_cancel)
  define j where "j = nat (int p - 1 - e)"
  have q: "pow2 (e - (int p - 1)) = 1 / 2 ^ j"
    using ep by (auto simp add: pow2_def j_def nat_diff_distrib algebra_simps)
  define n where "n = k * 2 ^ j"
  have y: "of_int n * pow2 (e - (int p - 1)) = x"
    by (simp add: n_def q k)
  have "pow2 (int p) \<le> pow2 emax" using fmt(2) by (rule pow2_mono)
  then have fin: "\<bar>of_int n * pow2 (e - (int p - 1))\<bar> < pow2 emax"
    unfolding y using small by (simp add: pow2_nat)
  have near: "\<bar>x - of_int n * pow2 (e - (int p - 1))\<bar> < pow2 (e - (int p - 1)) / 2"
    unfolding y using pow2_pos[of "e - (int p - 1)"] by simp
  have "emin \<le> e" using fmt(1) e0 by simp
  from round_real_eqI[OF bin this near fin] show ?thesis unfolding y .
qed

lemma round32_integer: "x \<in> \<int> \<Longrightarrow> \<bar>x\<bar> < 2 ^ 24 \<Longrightarrow> round_real binary32 x = Fin x"
  unfolding binary32_def by (rule round_real_integer) simp_all

lemma round64_integer: "x \<in> \<int> \<Longrightarrow> \<bar>x\<bar> < 2 ^ 53 \<Longrightarrow> round_real binary64 x = Fin x"
  unfolding binary64_def by (rule round_real_integer) simp_all

section \<open>Evaluating the Gaussian radius\<close>

lemma round_real_eqI2:
  assumes "pow2 e \<le> \<bar>x\<bar>" "\<bar>x\<bar> < pow2 (e + 1)" "emin \<le> e"
    and "y = of_int n * pow2 (e - (int p - 1))"
    and "\<bar>x - y\<bar> < pow2 (e - (int p - 1)) / 2"
    and "\<bar>y\<bar> < pow2 emax"
  shows "round_real (p, emin, emax) x = Fin y"
  using round_real_eqI[of e x emin n p emax] assms by simp

lemma round_real_tieI2:
  assumes "pow2 e \<le> \<bar>x\<bar>" "\<bar>x\<bar> < pow2 (e + 1)" "emin \<le> e"
    and "x = (of_int n + 1 / 2) * pow2 (e - (int p - 1))"
    and "m = (if even n then n else n + 1)"
    and "y = of_int m * pow2 (e - (int p - 1))"
    and "\<bar>y\<bar> < pow2 emax"
  shows "round_real (p, emin, emax) x = Fin y"
  using round_real_tieI[of e x emin n p m emax] assms by simp

lemma arith_Py_Py: "arith f (Py a) (Py b) = Py (round_fl binary64 (f a b))"
  by (simp add: arith_def)

lemma arith_Py_T32:
  "arith f (Py a) (T32 ys) = T32 (map (\<lambda>v. round_fl binary32 (f (convert32 a) v)) ys)"
  by (simp add: arith_def)

lemma arith_T32_Py:
  "arith f (T32 xs) (Py b) = T32 (map (\<lambda>u. round_fl binary32 (f u (convert32 b))) xs)"
  by (simp add: arith_def)

lemma arith_T32_T32:
  "arith f (T32 xs) (T32 ys) = T32 (map2 (\<lambda>u v. round_fl binary32 (f u v)) xs ys)"
  by (simp add: arith_def)

lemma convert32_two: "convert32 (Fin 2) = Fin 2"
  by (simp add: convert32_def round32_integer)

text \<open>
  The root computed from floats of the interpreter: \<open>b\<close> with its square \<open>q\<close> already
  taken and \<open>4 * a * c = 0\<close>.
\<close>

lemma root_of_square:
  assumes sq: "round_real binary64 (b * b) = Fin q"
    and fa: "round_real binary64 (4 * a) = Fin a4"
    and id: "round_real binary64 q = Fin q"
    and v: "round_real binary32 q = Fin v" "0 \<le> v"
    and d: "round_real binary32 (sqrt v) = Fin d"
    and n: "round_real binary32 (- b) = Fin nb"
    and u: "round_real binary32 (nb + d) = Fin u"
    and r: "round_real binary32 (u / 2) = Fin r"
  shows "smallest_positive_root (Py (Fin a)) (Py (Fin b)) (Py (Fin 0)) = Inr (T32 [Fin r])"
proof -
  have s1: "num_square (Py (Fin b)) = Inr (Py (Fin q))"
    by (simp add: num_square_def py_square_def bind_result_def sq)
  have s2: "num_mul (num_mul (Py (Fin 4)) (Py (Fin a))) (Py (Fin 0)) = Py (Fin 0)"
    by (simp add: num_mul_def arith_Py_Py fa round_real_zero)
  have s3: "num_sub (Py (Fin q)) (Py (Fin 0)) = Py (Fin q)"
    by (simp add: num_sub_def arith_Py_Py fsub_def id)
  have s4: "tf_sqrt (Py (Fin q)) = T32 [Fin d]"
    using v(2) by (simp add: tf_sqrt_def convert_to_tensor_def convert32_def v(1) d)
  have s5: "num_add (num_neg (Py (Fin b))) (T32 [Fin d]) = T32 [Fin u]"
    by (simp add: num_add_def num_neg_def arith_Py_T32 convert32_def n u)
  have s6: "num_truediv (T32 [Fin u]) (Py (Fin 2)) = Inr (T32 [Fin r])"
    by (simp add: num_truediv_def arith_T32_Py convert32_two r)
  show ?thesis
    unfolding smallest_positive_root_def s1 bind_result_def sum.case Let_def s2 s3 s4 s5 s6 ..
qed

lemma full_overlap_tuple:
  assumes hw: "round_real binary64 (h + w) = Fin s"
    and wh: "round_real binary64 (w * h) = Fin p"
    and dbl: "round_real binary64 (2 * s) = Fin t"
    and dbln: "round_real binary64 (- (2 * s)) = Fin (- t)"
    and r1: "smallest_positive_root (Py (Fin 1)) (Py (Fin (- s))) (Py (Fin 0)) = Inr (T32 [Fin r1])"
    and r2: "smallest_positive_root (Py (Fin 4)) (Py (Fin (- t))) (Py (Fin 0)) = Inr (T32 [Fin r2])"
    and r3: "smallest_positive_root (Py (Fin 4)) (Py (Fin t)) (Py (Fin 0)) = Inr (T32 [Fin r3])"
  shows "gaussian_radius (PyTuple [Fin h, Fin w]) (Fin 1)
       = Inr \<lparr>shape = [], data = [Fin (min (min r1 r2) r3)]\<rparr>"
proof -
  let ?m = "Py (Fin 1)"
  have i0: "det_item (PyTuple [Fin h, Fin w]) 0 = Inr (Py (Fin h))"
    and i1: "det_item (PyTuple [Fin h, Fin w]) 1 = Inr (Py (Fin w))"
    by (simp_all add: det_item_def tensor_index_def bind_result_def)
  have two: "round_real binary64 2 = Fin 2" and four: "round_real binary64 4 = Fin 4"
    by (simp_all add: round64_integer)
  have S: "num_add (Py (Fin h)) (Py (Fin w)) = Py (Fin s)"
    by (simp add: num_add_def arith_Py_Py hw)
  have om: "num_sub (Py (Fin 1)) ?m = Py (Fin 0)" "num_sub ?m (Py (Fin 1)) = Py (Fin 0)"
    by (simp_all add: num_sub_def arith_Py_Py fsub_def round_real_zero)
  have op: "num_add (Py (Fin 1)) ?m = Py (Fin 2)"
    by (simp add: num_add_def arith_Py_Py two)
  have b1: "num_neg (Py (Fin s)) = Py (Fin (- s))"
    by (simp add: num_neg_def)
  have c1: "num_truediv (num_mul (num_mul (Py (Fin w)) (Py (Fin h))) (Py (Fin 0))) (Py (Fin 2))
      = Inr (Py (Fin 0))"
    by (simp add: num_truediv_def py_truediv_def bind_result_def num_mul_def arith_Py_Py wh round_real_zero)
  have b2: "num_mul (Py (Fin (- 2))) (Py (Fin s)) = Py (Fin (- t))"
    by (simp add: num_mul_def arith_Py_Py dbln)
  have c2: "num_mul (num_mul (Py (Fin 0)) (Py (Fin w))) (Py (Fin h)) = Py (Fin 0)"
    by (simp add: num_mul_def arith_Py_Py round_real_zero)
  have a3: "num_mul (Py (Fin 4)) ?m = Py (Fin 4)"
    by (simp add: num_mul_def arith_Py_Py four)
  have b3: "num_mul (num_mul (Py (Fin 2)) ?m) (Py (Fin s)) = Py (Fin t)"
    by (simp add: num_mul_def arith_Py_Py two dbl)
  have red: "reduce_min_axis0 [T32 [Fin r1], T32 [Fin r2], T32 [Fin r3]] = [Fin (min (min r1 r2) r3)]"
    by (simp add: reduce_min_axis0_def convert_to_tensor_def)
  show ?thesis
    unfolding gaussian_radius_def i0 i1 bind_result_def sum.case Let_def S om op b1 c1 b2 c2 a3 b3
      r1 r2 r3 red item_shape_def det.case ..
qed

section \<open>The Gaussian radius and its specification\<close>



subsection \<open>A tuple of floats\<close>



subsection \<open>A tensor\<close>










subsection \<open>Full overlap\<close>


section \<open>Claims on the Gaussian radius\<close>




text \<open>
  Claim C6 fails on the program. For the tuple \<open>(255.7, 202.5)\<close> and \<^verbatim>\<open>min_overlap = 1.0\<close>
  (255.7 is the float \<open>4498321971557171 / 2^44\<close>) the third root is
  \<open>(-b + sqrt (b^2)) / 2\<close> with \<open>b = 916.4\<close> in 64 bits; the square, rounded to 32 bits
  for the square root, is \<open>839788.9375\<close>, its root rounds to \<open>916.39996...\<close>, one unit
  in the last place below the \<open>916.40002...\<close> that \<open>b\<close> is rounded to, and the radius is
  \<open>- 2^-15\<close>, a negative number.
\<close>

theorem gaussian_radius_negative:
  "gaussian_radius (PyTuple [Fin (4498321971557171 / 17592186044416), Fin (405 / 2)]) (Fin 1)
     = Inr \<lparr>shape = [], data = [Fin (- (1 / 32768))]\<rparr>"
proof -
  have hw: "round_real binary64 ((4498321971557171 / 17592186044416) + (405 / 2)) = Fin (8060739645551411 / 17592186044416)"
    unfolding binary64_def
    by (rule round_real_eqI2[where e="8" and n="8060739645551411"]) (simp_all add: pow2_def)
  have wh: "round_real binary64 ((405 / 2) * (4498321971557171 / 17592186044416)) = Fin (207117 / 4)"
    unfolding binary64_def
    by (rule round_real_eqI2[where e="15" and n="7116485931565056"]) (simp_all add: pow2_def)
  have dbl: "round_real binary64 (2 * (8060739645551411 / 17592186044416)) = Fin (8060739645551411 / 8796093022208)"
    unfolding binary64_def
    by (rule round_real_eqI2[where e="9" and n="8060739645551411"]) (simp_all add: pow2_def)
  have dbln: "round_real binary64 (- (2 * (8060739645551411 / 17592186044416))) = Fin (- (8060739645551411 / 8796093022208))"
    unfolding binary64_def
    by (rule round_real_eqI2[where e="9" and n="-8060739645551411"]) (simp_all add: pow2_def)
  have root1_sq: "round_real binary64 ((- (8060739645551411 / 17592186044416)) * (- (8060739645551411 / 17592186044416))) = Fin (901716529685463 / 4294967296)"
    unfolding binary64_def
    by (rule round_real_eqI2[where e="17" and n="7213732237483704"]) (simp_all add: pow2_def)
  have root1_fa: "round_real binary64 (4 * 1) = Fin 4"
    unfolding binary64_def
    by (rule round_real_eqI2[where e="2" and n="4503599627370496"]) (simp_all add: pow2_def)
  have root1_id: "round_real binary64 (901716529685463 / 4294967296) = Fin (901716529685463 / 4294967296)"
    unfolding binary64_def
    by (rule round_real_eqI2[where e="17" and n="7213732237483704"]) (simp_all add: pow2_def)
  have root1_v: "round_real binary32 (901716529685463 / 4294967296) = Fin (13436623 / 64)"
    unfolding binary32_def
    by (rule round_real_eqI2[where e="17" and n="13436623"]) (simp_all add: pow2_def)
  have root1_v0: "(0::real) \<le> 13436623 / 64" by simp
  have root1_d: "round_real binary32 (sqrt (13436623 / 64)) = Fin (15014297 / 32768)"
    unfolding binary32_def
    by (rule round_sqrt_eqI[where e="8" and n="15014297"]) (simp_all add: pow2_def)
  have root1_n: "round_real binary32 (- (- (8060739645551411 / 17592186044416))) = Fin (7507149 / 16384)"
    unfolding binary32_def
    by (rule round_real_eqI2[where e="8" and n="15014298"]) (simp_all add: pow2_def)
  have root1_u: "round_real binary32 ((7507149 / 16384) + (15014297 / 32768)) = Fin (7507149 / 8192)"
    unfolding binary32_def
    by (rule round_real_tieI2[where e="9" and n="15014297" and m="15014298"]) (simp_all add: pow2_def)
  have root1_r: "round_real binary32 ((7507149 / 8192) / 2) = Fin (7507149 / 16384)"
    unfolding binary32_def
    by (rule round_real_eqI2[where e="8" and n="15014298"]) (simp_all add: pow2_def)
  have root1: "smallest_positive_root (Py (Fin 1)) (Py (Fin (- (8060739645551411 / 17592186044416)))) (Py (Fin 0)) = Inr (T32 [Fin (7507149 / 16384)])"
    by (rule root_of_square[OF root1_sq root1_fa root1_id root1_v root1_v0 root1_d root1_n root1_u root1_r])
  have root2_sq: "round_real binary64 ((- (8060739645551411 / 8796093022208)) * (- (8060739645551411 / 8796093022208))) = Fin (901716529685463 / 1073741824)"
    unfolding binary64_def
    by (rule round_real_eqI2[where e="19" and n="7213732237483704"]) (simp_all add: pow2_def)
  have root2_fa: "round_real binary64 (4 * 4) = Fin 16"
    unfolding binary64_def
    by (rule round_real_eqI2[where e="4" and n="4503599627370496"]) (simp_all add: pow2_def)
  have root2_id: "round_real binary64 (901716529685463 / 1073741824) = Fin (901716529685463 / 1073741824)"
    unfolding binary64_def
    by (rule round_real_eqI2[where e="19" and n="7213732237483704"]) (simp_all add: pow2_def)
  have root2_v: "round_real binary32 (901716529685463 / 1073741824) = Fin (13436623 / 16)"
    unfolding binary32_def
    by (rule round_real_eqI2[where e="19" and n="13436623"]) (simp_all add: pow2_def)
  have root2_v0: "(0::real) \<le> 13436623 / 16" by simp
  have root2_d: "round_real binary32 (sqrt (13436623 / 16)) = Fin (15014297 / 16384)"
    unfolding binary32_def
    by (rule round_sqrt_eqI[where e="9" and n="15014297"]) (simp_all add: pow2_def)
  have root2_n: "round_real binary32 (- (- (8060739645551411 / 8796093022208))) = Fin (7507149 / 8192)"
    unfolding binary32_def
    by (rule round_real_eqI2[where e="9" and n="15014298"]) (simp_all add: pow2_def)
  have root2_u: "round_real binary32 ((7507149 / 8192) + (15014297 / 16384)) = Fin (7507149 / 4096)"
    unfolding binary32_def
    by (rule round_real_tieI2[where e="10" and n="15014297" and m="15014298"]) (simp_all add: pow2_def)
  have root2_r: "round_real binary32 ((7507149 / 4096) / 2) = Fin (7507149 / 8192)"
    unfolding binary32_def
    by (rule round_real_eqI2[where e="9" and n="15014298"]) (simp_all add: pow2_def)
  have root2: "smallest_positive_root (Py (Fin 4)) (Py (Fin (- (8060739645551411 / 8796093022208)))) (Py (Fin 0)) = Inr (T32 [Fin (7507149 / 8192)])"
    by (rule root_of_square[OF root2_sq root2_fa root2_id root2_v root2_v0 root2_d root2_n root2_u root2_r])
  have root3_sq: "round_real binary64 ((8060739645551411 / 8796093022208) * (8060739645551411 / 8796093022208)) = Fin (901716529685463 / 1073741824)"
    unfolding binary64_def
    by (rule round_real_eqI2[where e="19" and n="7213732237483704"]) (simp_all add: pow2_def)
  have root3_fa: "round_real binary64 (4 * 4) = Fin 16"
    unfolding binary64_def
    by (rule round_real_eqI2[where e="4" and n="4503599627370496"]) (simp_all add: pow2_def)
  have root3_id: "round_real binary64 (901716529685463 / 1073741824) = Fin (901716529685463 / 1073741824)"
    unfolding binary64_def
    by (rule round_real_eqI2[where e="19" and n="7213732237483704"]) (simp_all add: pow2_def)
  have root3_v: "round_real binary32 (901716529685463 / 1073741824) = Fin (13436623 / 16)"
    unfolding binary32_def
    by (rule round_real_eqI2[where e="19" and n="13436623"]) (simp_all add: pow2_def)
  have root3_v0: "(0::real) \<le> 13436623 / 16" by simp
  have root3_d: "round_real binary32 (sqrt (13436623 / 16)) = Fin (15014297 / 16384)"
    unfolding binary32_def
    by (rule round_sqrt_eqI[where e="9" and n="15014297"]) (simp_all add: pow2_def)
  have root3_n: "round_real binary32 (- (8060739645551411 / 8796093022208)) = Fin (- (7507149 / 8192))"
    unfolding binary32_def
    by (rule round_real_eqI2[where e="9" and n="-15014298"]) (simp_all add: pow2_def)
  have root3_u: "round_real binary32 ((- (7507149 / 8192)) + (15014297 / 16384)) = Fin (- (1 / 16384))"
    unfolding binary32_def
    by (rule round_real_eqI2[where e="-14" and n="-8388608"]) (simp_all add: pow2_def)
  have root3_r: "round_real binary32 ((- (1 / 16384)) / 2) = Fin (- (1 / 32768))"
    unfolding binary32_def
    by (rule round_real_eqI2[where e="-15" and n="-8388608"]) (simp_all add: pow2_def)
  have root3: "smallest_positive_root (Py (Fin 4)) (Py (Fin (8060739645551411 / 8796093022208))) (Py (Fin 0)) = Inr (T32 [Fin (- (1 / 32768))])"
    by (rule root_of_square[OF root3_sq root3_fa root3_id root3_v root3_v0 root3_d root3_n root3_u root3_r])
  from full_overlap_tuple[OF hw wh dbl dbln root1 root2 root3]
  show ?thesis by simp
qed




section \<open>Properties of the Gaussian kernel\<close>

lemma tf_range_valid: "start \<le> limit \<Longrightarrow> tf_range start limit = Inr [start..limit - 1]"
  by (simp add: tf_range_def)


lemma gaussian_penalty_zero: "gaussian_penalty 0 = Inr [[NaN]]"
  by (simp add: gaussian_penalty_def tf_range_def bind_result_def gaussian_exponent_def
      fsquare_def fsub_def upto.simps)

text \<open>
  Claim C3, as the code has it. For radius 0 the kernel is a single cell; its exponent
  is \<open>0 / 0\<close> because \<open>sigma = 0\<close>, and the cell holds NaN: the division by zero is
  propagated, there is no special case that would make it 1.
\<close>

theorem gaussian_penalty_radius_zero_is_nan: "gaussian_penalty 0 = Inr [[NaN]]"
  by (simp add: gaussian_penalty_def tf_range_def bind_result_def gaussian_exponent_def
      fsquare_def fsub_def upto.simps)

text \<open>Claim C3 as stated fails: the patch for radius 0 is not the single value 1.\<close>

theorem gaussian_penalty_radius_zero_not_one: "gaussian_penalty 0 \<noteq> Inr [[Fin 1]]"
  by (simp add: gaussian_penalty_zero)

lemma gaussian_penalty_negative: "r < 0 \<Longrightarrow> gaussian_penalty r = Inl RangeInvalid"
  by (simp add: gaussian_penalty_def tf_range_def bind_result_def)

lemma gaussian_exponent_Fin:
  "s \<noteq> 0 \<Longrightarrow> gaussian_exponent (Fin s) (Fin a) (Fin b) = Fin ((- (a * a) - b * b) / (2 * (s * s)))"
  by (simp add: gaussian_exponent_def fsquare_def fsub_def)

lemma gaussian_penalty_kernel:
  assumes "0 \<le> r"
  shows "\<exists>K. gaussian_penalty r = Inr K
     \<and> length K = nat (2 * r + 1)
     \<and> (\<forall>row \<in> set K. length row = nat (2 * r + 1))
     \<and> (\<forall>i j. int i \<le> 2 * r \<and> int j \<le> 2 * r \<longrightarrow>
          K ! i ! j = fexp (gaussian_exponent (Fin (real_of_int r / 3))
                        (Fin (real_of_int (int i - r))) (Fin (real_of_int (int j - r)))))"
proof -
  define rw where "rw = map (\<lambda>i. Fin (real_of_int (i - r))) [0..2 * r]"
  define K where "K = map (\<lambda>x. map (\<lambda>y. fexp (gaussian_exponent (Fin (real_of_int r / 3)) x y)) rw) rw"
  have res: "gaussian_penalty r = Inr K"
    using assms by (simp add: gaussian_penalty_def tf_range_def bind_result_def K_def rw_def)
  have lrw: "length rw = nat (2 * r + 1)" using assms by (simp add: rw_def)
  have len: "length K = nat (2 * r + 1)" by (simp add: K_def lrw)
  have rows: "\<forall>row \<in> set K. length row = nat (2 * r + 1)" by (auto simp add: K_def lrw)
  have nth: "K ! i ! j = fexp (gaussian_exponent (Fin (real_of_int r / 3))
                        (Fin (real_of_int (int i - r))) (Fin (real_of_int (int j - r))))"
    if ij: "int i \<le> 2 * r \<and> int j \<le> 2 * r" for i j
  proof -
    have i: "i < nat (2 * r + 1)" and j: "j < nat (2 * r + 1)" using ij by linarith+
    have "[0..2 * r] ! i = int i" "[0..2 * r] ! j = int j"
      using ij by (simp_all add: nth_upto)
    then show ?thesis using i j by (simp add: K_def rw_def)
  qed
  show ?thesis using res len rows nth by blast
qed

text \<open>
  Claim C7, for radius at least 1. The kernel has \<open>2r + 1\<close> rows of \<open>2r + 1\<close>
  entries, the entry at \<open>(i, j)\<close> equals the entry at \<open>(2r - i, 2r - j)\<close>, and the
  centre entry is exactly 1.
\<close>

theorem gaussian_penalty_symmetric_peak:
  assumes "1 \<le> r"
  shows "\<exists>K. gaussian_penalty r = Inr K
    \<and> length K = nat (2 * r + 1)
    \<and> (\<forall>i. int i \<le> 2 * r \<longrightarrow> length (K ! i) = nat (2 * r + 1))
    \<and> (\<forall>i j. int i \<le> 2 * r \<and> int j \<le> 2 * r \<longrightarrow>
          K ! i ! j = K ! (nat (2 * r) - i) ! (nat (2 * r) - j))
    \<and> K ! nat r ! nat r = Fin 1"
proof -
  have r0: "0 \<le> r" using assms by simp
  from gaussian_penalty_kernel[OF r0]
  obtain K where res: "gaussian_penalty r = Inr K"
    and len: "length K = nat (2 * r + 1)"
    and rows: "\<forall>row \<in> set K. length row = nat (2 * r + 1)"
    and nth: "\<And>i j. int i \<le> 2 * r \<and> int j \<le> 2 * r \<Longrightarrow>
          K ! i ! j = fexp (gaussian_exponent (Fin (real_of_int r / 3))
                        (Fin (real_of_int (int i - r))) (Fin (real_of_int (int j - r))))"
    by blast
  have s: "real_of_int r / 3 \<noteq> 0" using assms by simp
  have rowlen: "length (K ! i) = nat (2 * r + 1)" if "int i \<le> 2 * r" for i
  proof -
    have "i < length K" using that len by linarith
    then have "K ! i \<in> set K" by simp
    then show ?thesis using rows by blast
  qed
  have sym: "K ! i ! j = K ! (nat (2 * r) - i) ! (nat (2 * r) - j)"
    if ij: "int i \<le> 2 * r \<and> int j \<le> 2 * r" for i j
  proof -
    have i': "int (nat (2 * r) - i) = 2 * r - int i" and j': "int (nat (2 * r) - j) = 2 * r - int j"
      using ij by linarith+
    have ij': "int (nat (2 * r) - i) \<le> 2 * r \<and> int (nat (2 * r) - j) \<le> 2 * r"
      using ij by linarith
    have "K ! (nat (2 * r) - i) ! (nat (2 * r) - j) =
       fexp (gaussian_exponent (Fin (real_of_int r / 3)) (Fin (real_of_int (r - int i))) (Fin (real_of_int (r - int j))))"
      unfolding nth[OF ij'] i' j' by simp
    also have "\<dots> = fexp (gaussian_exponent (Fin (real_of_int r / 3)) (Fin (real_of_int (int i - r))) (Fin (real_of_int (int j - r))))"
      by (simp add: gaussian_exponent_Fin[OF s] algebra_simps)
    also have "\<dots> = K ! i ! j"
      using nth[OF ij] by simp
    finally show ?thesis by simp
  qed
  have c: "int (nat r) \<le> 2 * r \<and> int (nat r) \<le> 2 * r" using assms by simp
  have "K ! nat r ! nat r =
     fexp (gaussian_exponent (Fin (real_of_int r / 3)) (Fin (real_of_int (int (nat r) - r))) (Fin (real_of_int (int (nat r) - r))))"
    by (rule nth[OF c])
  also have "\<dots> = Fin 1"
    using assms by (simp add: gaussian_exponent_Fin[OF s])
  finally have centre: "K ! nat r ! nat r = Fin 1" .
  show ?thesis using res len rowlen sym centre by blast
qed

theorem gaussian_penalty_symmetric_peak_witness:
  "(1::int) \<le> 2
   \<and> (\<exists>K. gaussian_penalty 2 = Inr K \<and> length K = 5 \<and> K ! 2 ! 2 = Fin 1
          \<and> K ! 0 ! 1 = K ! 4 ! 3)"
proof -
  have r: "(1::int) \<le> 2" by simp
  from gaussian_penalty_symmetric_peak [OF r]
  obtain K where res: "gaussian_penalty 2 = Inr K"
    and len: "length K = nat (2 * 2 + 1)"
    and sym: "\<forall>i j. int i \<le> 2 * 2 \<and> int j \<le> 2 * 2 \<longrightarrow>
          K ! i ! j = K ! (nat (2 * 2) - i) ! (nat (2 * 2) - j)"
    and centre: "K ! nat 2 ! nat 2 = Fin 1"
    by blast
  have "int 0 \<le> 2 * 2 \<and> int 1 \<le> 2 * 2 \<longrightarrow>
      K ! 0 ! 1 = K ! (nat (2 * 2) - 0) ! (nat (2 * 2) - 1)"
    using sym by (elim allE)
  then have s: "K ! 0 ! 1 = K ! 4 ! 3" by simp
  have l: "length K = 5" using len by simp
  have c: "K ! 2 ! 2 = Fin 1" using centre by simp
  show ?thesis using r res l c s by blast
qed

text \<open>Claim C7 as stated fails at radius 0, where the centre is NaN and not 1.\<close>

theorem gaussian_penalty_center_at_radius_zero:
  "gaussian_penalty 0 = Inr [[NaN]] \<and> [[NaN]] ! 0 ! 0 \<noteq> Fin 1"
  by (simp add: gaussian_penalty_zero)
section \<open>Properties of the image shape helper\<close>

text \<open>
  Claim C8, as the code has it. For rank 4 the result is \<open>(shape[1], shape[2])\<close>; for
  every other rank of at least 2, rank 3 among them, it is \<open>(shape[0], shape[1])\<close> and
  no error is raised; below rank 2 reading \<open>shape[1]\<close> fails.
\<close>

theorem get_image_shape_ranks:
  "(length s = 4 \<longrightarrow> get_image_shape s = Inr (s ! 1, s ! 2))
   \<and> (length s \<noteq> 4 \<and> 2 \<le> length s \<longrightarrow> get_image_shape s = Inr (s ! 0, s ! 1))
   \<and> (length s < 2 \<longrightarrow> get_image_shape s = Inl SliceIndexOutOfBounds)"
  by (auto simp add: get_image_shape_def tensor_index_def bind_result_def Let_def)

theorem get_image_shape_ranks_witness:
  "length [2, 7, 9, 3 :: nat] = 4 \<and> get_image_shape [2, 7, 9, 3] = Inr (7, 9)
   \<and> length [7, 9, 3 :: nat] \<noteq> 4 \<and> 2 \<le> length [7, 9, 3 :: nat] \<and> get_image_shape [7, 9, 3] = Inr (7, 9)
   \<and> length [7 :: nat] < 2 \<and> get_image_shape [7] = Inl SliceIndexOutOfBounds"
  using get_image_shape_ranks [of "[2, 7, 9, 3]"] get_image_shape_ranks [of "[7, 9, 3]"]
    get_image_shape_ranks [of "[7]"]
  by simp

text \<open>Claim C8 as stated fails: an image of rank 2 gets a height and a width, not an error.\<close>

theorem get_image_shape_rank_two_no_error: "get_image_shape [7, 9] = Inr (7, 9)"
  by (simp add: get_image_shape_def tensor_index_def bind_result_def)
section \<open>Row-major positions and Cartesian products\<close>

lemma concat_blocks_length:
  "\<forall>ys \<in> set yss. length ys = m \<Longrightarrow> length (concat yss) = length yss * m"
  by (induction yss) simp_all

lemma concat_blocks_nth:
  "\<forall>ys \<in> set yss. length ys = m \<Longrightarrow> q < length yss * m \<Longrightarrow>
   concat yss ! q = yss ! (q div m) ! (q mod m)"
proof (induction yss arbitrary: q)
  case Nil
  then show ?case by simp
next
  case (Cons ys yss)
  have m: "0 < m" using Cons.prems(2) by (cases m) simp_all
  show ?case
  proof (cases "q < m")
    case True
    then show ?thesis using Cons.prems by (simp add: nth_append)
  next
    case False
    then have q: "q - m < length yss * m" using Cons.prems(2) by simp
    have mq: "m \<le> q" using False by simp
    have d: "q div m = Suc ((q - m) div m)" using m mq by (rule le_div_geq)
    have r: "q mod m = (q - m) mod m" using mq by (rule le_mod_geq)
    have "concat (ys # yss) ! q = concat yss ! (q - m)"
      using False Cons.prems(1) by (simp add: nth_append)
    also have "\<dots> = yss ! ((q - m) div m) ! ((q - m) mod m)"
      using Cons.IH[OF _ q] Cons.prems(1) by simp
    finally show ?thesis using d r by simp
  qed
qed

lemma length_product_lists_prod:
  "length (product_lists xss) = prod_list (map length xss)"
proof (induction xss)
  case Nil
  then show ?case by simp
next
  case (Cons xs xss)
  have "length (concat (map (\<lambda>x. map (Cons x) (product_lists xss)) xs))
      = length (map (\<lambda>x. map (Cons x) (product_lists xss)) xs) * length (product_lists xss)"
    by (rule concat_blocks_length) auto
  then show ?case using Cons.IH by simp
qed

lemma product_lists_nth:
  "r < prod_list (map length xss) \<Longrightarrow>
   product_lists xss ! r = map (\<lambda>i. xss ! i ! (unravel (map length xss) r ! i)) [0..<length xss]"
proof (induction xss arbitrary: r)
  case Nil
  then show ?case by simp
next
  case (Cons xs xss)
  let ?P = "prod_list (map length xss)"
  let ?yss = "map (\<lambda>x. map (Cons x) (product_lists xss)) xs"
  have r: "r < length xs * ?P" using Cons.prems by simp
  then have P: "0 < ?P" by (cases ?P) simp_all
  have d: "r div ?P < length xs" using r P by (simp add: less_mult_imp_div_less)
  have m: "r mod ?P < ?P" using P by simp
  have blocks: "\<forall>ys \<in> set ?yss. length ys = ?P"
    by (auto simp: length_product_lists_prod)
  have "product_lists (xs # xss) ! r = ?yss ! (r div ?P) ! (r mod ?P)"
    using concat_blocks_nth[OF blocks, of r] r by simp
  also have "\<dots> = (xs ! (r div ?P)) # (product_lists xss ! (r mod ?P))"
    using d m by (simp add: length_product_lists_prod)
  also have "product_lists xss ! (r mod ?P)
      = map (\<lambda>i. xss ! i ! (unravel (map length xss) (r mod ?P) ! i)) [0..<length xss]"
    using Cons.IH[OF m] .
  finally show ?case
    by (simp add: map_upt_Suc del: upt_Suc)
qed

lemma product_lists_rows:
  "product_lists xss =
   map (\<lambda>r. map (\<lambda>i. xss ! i ! (unravel (map length xss) r ! i)) [0..<length xss])
     [0..<prod_list (map length xss)]"
  by (rule nth_equalityI) (simp_all add: length_product_lists_prod product_lists_nth)

lemma length_unravel: "length (unravel ns q) = length ns"
  by (induction ns arbitrary: q) simp_all

lemma unravel_snoc:
  "q < prod_list ns * k \<Longrightarrow> unravel (ns @ [k]) q = unravel ns (q div k) @ [q mod k]"
proof (induction ns arbitrary: q)
  case Nil
  then show ?case by simp
next
  case (Cons n ns)
  let ?P = "prod_list ns"
  have P: "0 < ?P"
  proof (rule ccontr)
    assume "\<not> 0 < ?P"
    then have "?P = 0" by simp
    with Cons.prems show False by simp
  qed
  have k: "0 < k"
  proof (rule ccontr)
    assume "\<not> 0 < k"
    then have "k = 0" by simp
    with Cons.prems show False by simp
  qed
  have pos: "0 < ?P * k" using P k by simp
  have lt: "q mod (?P * k) < ?P * k" using pos by simp
  have split: "q mod (k * ?P) = k * (q div k mod ?P) + q mod k"
    by (rule mod_mult2_eq)
  have a: "q mod (?P * k) div k = q div k mod ?P"
    using split k by (simp add: mult.commute)
  have b: "q mod (?P * k) mod k = q mod k"
    using split k by (simp add: mult.commute)
  have c: "q div (?P * k) = q div k div ?P"
    by (simp add: div_mult2_eq mult.commute)
  show ?case using Cons.IH[OF lt] a b c by simp
qed

lemma stride_Cons_0: "stride (n # ns) 0 = prod_list ns"
  by (simp add: stride_def)

lemma stride_Cons_Suc: "stride (n # ns) (Suc p) = stride ns p"
  by (simp add: stride_def)

lemma offset_unravel:
  "q < prod_list ns \<Longrightarrow>
   sum_list (map2 (\<lambda>j p. j * stride (k # ns) p) (unravel ns q) (map Suc [0..<length ns])) = q"
proof (induction ns arbitrary: q k)
  case Nil
  then show ?case by simp
next
  case (Cons n ns)
  let ?P = "prod_list ns"
  have P: "0 < ?P" using Cons.prems by (cases ?P) simp_all
  have m: "q mod ?P < ?P" using P by simp
  have up: "[0..<length (n # ns)] = 0 # map Suc [0..<length ns]"
    by (simp add: upt_conv_Cons map_Suc_upt del: upt_Suc)
  have "sum_list (map2 (\<lambda>j p. j * stride (k # n # ns) p) (unravel (n # ns) q) (map Suc [0..<length (n # ns)]))
    = (q div ?P) * ?P
      + sum_list (map2 (\<lambda>j p. j * stride (k # n # ns) p) (unravel ns (q mod ?P)) (map Suc (map Suc [0..<length ns])))"
    unfolding up by (simp add: stride_Cons_Suc stride_Cons_0)
  also have "map2 (\<lambda>j p. j * stride (k # n # ns) p) (unravel ns (q mod ?P)) (map Suc (map Suc [0..<length ns]))
    = map2 (\<lambda>j p. j * stride (n # ns) p) (unravel ns (q mod ?P)) (map Suc [0..<length ns])"
    by (simp add: zip_map2 stride_Cons_Suc case_prod_unfold)
  also have "sum_list \<dots> = q mod ?P" using Cons.IH[OF m] .
  finally show ?case by simp
qed

subsection \<open>The Cartesian product helper\<close>

lemma meshgrid_ij_data:
  "data (stack (meshgrid_ij ts)) =
   concat (map (\<lambda>i. map (\<lambda>q. ts ! i ! (unravel (map length ts) q ! i)) [0..<prod_list (map length ts)])
     [0..<length ts])"
  by (simp add: stack_def meshgrid_ij_def Let_def comp_def)

lemma meshgrid_ij_shape:
  "ts \<noteq> [] \<Longrightarrow> shape (stack (meshgrid_ij ts)) = length ts # map length ts"
  by (cases ts) (simp_all add: stack_def meshgrid_ij_def Let_def upt_conv_Cons del: upt_Suc)

lemma stacked_grid_nth:
  assumes "i < length ts" "q < prod_list (map length ts)"
  shows "data (stack (meshgrid_ij ts)) ! (i * prod_list (map length ts) + q)
     = ts ! i ! (unravel (map length ts) q ! i)"
proof -
  let ?P = "prod_list (map length ts)"
  let ?yss = "map (\<lambda>i. map (\<lambda>q. ts ! i ! (unravel (map length ts) q ! i)) [0..<?P]) [0..<length ts]"
  have blocks: "\<forall>ys \<in> set ?yss. length ys = ?P" by auto
  have "i * ?P + q < Suc i * ?P" using assms(2) by simp
  also have "\<dots> \<le> length ts * ?P" using assms(1) by (intro mult_le_mono1) simp
  finally have lt: "i * ?P + q < length ?yss * ?P" by simp
  have "concat ?yss ! (i * ?P + q) = ?yss ! ((i * ?P + q) div ?P) ! ((i * ?P + q) mod ?P)"
    using blocks lt by (rule concat_blocks_nth)
  moreover have "(i * ?P + q) div ?P = i" "(i * ?P + q) mod ?P = q"
    using assms(2) by simp_all
  ultimately show ?thesis using assms by (simp add: meshgrid_ij_data)
qed

lemma permuted_shape:
  "map (\<lambda>p. (k # ns) ! p) (map Suc [0..<length ns] @ [0]) = ns @ [k]"
  by (simp add: comp_def map_nth)

lemma permuted_offset:
  assumes "q < prod_list ns * k"
  shows "sum_list (map2 (\<lambda>j p. j * stride (k # ns) p) (unravel (ns @ [k]) q) (map Suc [0..<length ns] @ [0]))
     = (q mod k) * prod_list ns + q div k"
proof -
  have k: "0 < k"
  proof (rule ccontr)
    assume "\<not> 0 < k"
    then have "k = 0" by simp
    with assms show False by simp
  qed
  have d: "q div k < prod_list ns"
    using assms k by (simp add: less_mult_imp_div_less)
  have "unravel (ns @ [k]) q = unravel ns (q div k) @ [q mod k]"
    using assms by (rule unravel_snoc)
  then show ?thesis
    using offset_unravel[OF d, of k] by (simp add: length_unravel stride_Cons_0)
qed

lemma transposed_grid_data:
  assumes "ts \<noteq> []"
  shows "data (transpose_perm (stack (meshgrid_ij ts)) (map (\<lambda>i. i + 1) [0..<length ts] @ [0]))
     = map (\<lambda>q. ts ! (q mod length ts) ! (unravel (map length ts) (q div length ts) ! (q mod length ts)))
         [0..<prod_list (map length ts) * length ts]"
proof -
  let ?k = "length ts" and ?ns = "map length ts"
  let ?P = "prod_list ?ns"
  have k: "0 < ?k" using assms by simp
  have perm: "map (\<lambda>i. i + 1) [0..<?k] @ [0] = map Suc [0..<length ?ns] @ [0]" by simp
  have dims: "map (\<lambda>p. (?k # ?ns) ! p) (map Suc [0..<length ?ns] @ [0]) = ?ns @ [?k]"
    by (rule permuted_shape)
  have "data (transpose_perm (stack (meshgrid_ij ts)) (map Suc [0..<length ?ns] @ [0]))
     = map (\<lambda>q. data (stack (meshgrid_ij ts)) !
              sum_list (map2 (\<lambda>j p. j * stride (?k # ?ns) p) (unravel (?ns @ [?k]) q)
                          (map Suc [0..<length ?ns] @ [0])))
         [0..<?P * ?k]"
    unfolding transpose_perm_def Let_def meshgrid_ij_shape[OF assms] dims by simp
  also have "\<dots> = map (\<lambda>q. ts ! (q mod ?k) ! (unravel ?ns (q div ?k) ! (q mod ?k))) [0..<?P * ?k]"
  proof (rule map_cong[OF refl])
    fix q assume "q \<in> set [0..<?P * ?k]"
    then have q: "q < ?P * ?k" by simp
    have d: "q div ?k < ?P" using q k by (simp add: less_mult_imp_div_less)
    have m: "q mod ?k < ?k" using k by simp
    show "data (stack (meshgrid_ij ts)) !
              sum_list (map2 (\<lambda>j p. j * stride (?k # ?ns) p) (unravel (?ns @ [?k]) q)
                          (map Suc [0..<length ?ns] @ [0]))
        = ts ! (q mod ?k) ! (unravel ?ns (q div ?k) ! (q mod ?k))"
      unfolding permuted_offset[OF q] using stacked_grid_nth[OF m d] .
  qed
  finally show ?thesis unfolding perm .
qed

lemma rows_of_table:
  assumes "0 < k"
  shows "rows_of \<lparr>shape = [n, k], data = map f [0..<n * k]\<rparr>
     = map (\<lambda>r. map (\<lambda>i. f (r * k + i)) [0..<k]) [0..<n]"
proof -
  have "take k (drop (r * k) (map f [0..<n * k])) = map (\<lambda>i. f (r * k + i)) [0..<k]"
    if "r < n" for r
  proof -
    have "Suc r * k \<le> n * k" using that by (intro mult_le_mono1) simp
    then have le: "r * k + k \<le> n * k" by simp
    have "take k (drop (r * k) (map f [0..<n * k])) = map f [r * k..<r * k + k]"
      using le by (simp add: take_map drop_map)
    also have "[r * k..<r * k + k] = map (\<lambda>i. r * k + i) [0..<k]"
      using map_add_upt[of "r * k" k] by (simp add: add.commute)
    also have "map f (map (\<lambda>i. r * k + i) [0..<k]) = map (\<lambda>i. f (r * k + i)) [0..<k]"
      by (simp add: comp_def)
    finally show ?thesis .
  qed
  then show ?thesis by (simp add: rows_of_def)
qed

lemma cartesian_product_rows:
  "\<exists>t. cartesian_product tensors rep = Inr t
     \<and> shape t = [prod_list (map length (concat (replicate (nat rep) tensors))),
                   length (concat (replicate (nat rep) tensors))]
     \<and> rows_of t = product_lists (concat (replicate (nat rep) tensors))"
proof (cases "concat (replicate (nat rep) tensors) = []")
  case True
  define ts where "ts = concat (replicate (nat rep) tensors)"
  have e: "ts = []" using True by (simp add: ts_def)
  have "cartesian_product tensors rep =
      reshape_rows (transpose_perm (stack (meshgrid_ij ts)) (map (\<lambda>i. i + 1) [0..<length ts] @ [0]))
        (length ts)"
    by (simp add: cartesian_product_def Let_def ts_def)
  also have "\<dots> = Inr \<lparr>shape = [1, 0], data = []\<rparr>"
    unfolding e by (simp add: reshape_rows_def transpose_perm_def stack_def meshgrid_ij_def)
  finally have cp: "cartesian_product tensors rep = Inr \<lparr>shape = [1, 0], data = []\<rparr>" .
  show ?thesis unfolding ts_def[symmetric] e using cp by (simp add: rows_of_def)
next
  case False
  define ts where "ts = concat (replicate (nat rep) tensors)"
  let ?k = "length ts" and ?P = "prod_list (map length ts)"
  let ?f = "\<lambda>q. ts ! (q mod ?k) ! (unravel (map length ts) (q div ?k) ! (q mod ?k))"
  have ne: "ts \<noteq> []" using False by (simp add: ts_def)
  then have k: "0 < ?k" by simp
  let ?T = "transpose_perm (stack (meshgrid_ij ts)) (map (\<lambda>i. i + 1) [0..<?k] @ [0])"
  have dT: "data ?T = map ?f [0..<?P * ?k]" using ne by (rule transposed_grid_data)
  have "reshape_rows ?T ?k = Inr \<lparr>shape = [?P, ?k], data = map ?f [0..<?P * ?k]\<rparr>"
    unfolding reshape_rows_def dT using k by simp
  then have cp: "cartesian_product tensors rep = Inr \<lparr>shape = [?P, ?k], data = map ?f [0..<?P * ?k]\<rparr>"
    by (simp add: cartesian_product_def Let_def ts_def)
  have "rows_of \<lparr>shape = [?P, ?k], data = map ?f [0..<?P * ?k]\<rparr>
     = map (\<lambda>r. map (\<lambda>i. ?f (r * ?k + i)) [0..<?k]) [0..<?P]"
    using k by (rule rows_of_table)
  also have "\<dots> = map (\<lambda>r. map (\<lambda>i. ts ! i ! (unravel (map length ts) r ! i)) [0..<?k]) [0..<?P]"
  proof (intro map_cong refl)
    fix r i assume "i \<in> set [0..<?k]"
    then have i: "i < ?k" by simp
    then have "(r * ?k + i) div ?k = r" "(r * ?k + i) mod ?k = i" using ne by simp_all
    then show "?f (r * ?k + i) = ts ! i ! (unravel (map length ts) r ! i)" by simp
  qed
  also have "\<dots> = product_lists ts" by (rule product_lists_rows[symmetric])
  finally show ?thesis using cp by (simp add: ts_def)
qed

text \<open>
  Claim C5. For every list of index sequences (repeated \<open>rep\<close> times, once by default)
  \<open>cartesian_product\<close> returns a two-dimensional tensor with one row for each element
  of the Cartesian product and one column for each sequence, in the order of the
  sequences; the rows are those of \<open>product_lists\<close>, the lexicographic enumeration in
  which the last sequence varies fastest. With no sequence at all the product has its
  one empty row, a tensor of shape \<open>(1, 0)\<close>. The product of \<open>[0, 1]\<close> and \<open>[0, 1, 2]\<close>
  is the six rows \<open>(0,0), (0,1), (0,2), (1,0), (1,1), (1,2)\<close>.
\<close>

theorem cartesian_product_lexicographic:
  "(\<exists>t. cartesian_product tensors rep = Inr t
      \<and> shape t = [prod_list (map length (concat (replicate (nat rep) tensors))),
                    length (concat (replicate (nat rep) tensors))]
      \<and> rows_of t = product_lists (concat (replicate (nat rep) tensors)))
   \<and> (\<exists>t. cartesian_product [[0, 1], [0, 1, 2 :: int]] 1 = Inr t
         \<and> shape t = [6, 2]
         \<and> rows_of t = [[0, 0], [0, 1], [0, 2], [1, 0], [1, 1], [1, 2]])"
proof (intro conjI)
  show "\<exists>t. cartesian_product tensors rep = Inr t
         \<and> shape t = [prod_list (map length (concat (replicate (nat rep) tensors))),
                       length (concat (replicate (nat rep) tensors))]
         \<and> rows_of t = product_lists (concat (replicate (nat rep) tensors))"
    by (rule cartesian_product_rows)
next
  from cartesian_product_rows[of "[[0, 1], [0, 1, 2 :: int]]" 1]
  show "\<exists>t. cartesian_product [[0, 1], [0, 1, 2 :: int]] 1 = Inr t
         \<and> shape t = [6, 2]
         \<and> rows_of t = [[0, 0], [0, 1], [0, 2], [1, 0], [1, 1], [1, 2]]"
    by (simp add: eval_nat_numeral)
qed

theorem cartesian_product_lexicographic_witness:
  "(\<exists>t. cartesian_product [[5, 6], [7 :: int]] 1 = Inr t
         \<and> shape t = [2, 2] \<and> rows_of t = [[5, 7], [6, 7]])
   \<and> (\<exists>t. cartesian_product ([] :: int list list) 1 = Inr t
         \<and> shape t = [1, 0] \<and> rows_of t = [[]])"
  using cartesian_product_lexicographic [of "[[5, 6], [7 :: int]]" 1]
    cartesian_product_lexicographic [of "[] :: int list list" 1]
  by (simp add: eval_nat_numeral)
section \<open>Slices, positions and scattered writes\<close>

lemma py_slice_length:
  assumes "0 \<le> b" "0 \<le> e" "e \<le> int (length xs)"
  shows "length (py_slice b e xs) = nat (e - b)"
  using assms by (auto simp add: py_slice_def canonical_def Let_def min_def max_def)

lemma py_slice_nth:
  assumes "0 \<le> b" "0 \<le> e" "e \<le> int (length xs)" "a < nat (e - b)"
  shows "py_slice b e xs ! a = xs ! (nat b + a)"
proof -
  have "b < e" using assms(4) by simp
  then have "canonical (int (length xs)) b = b" "canonical (int (length xs)) e = e"
    using assms by (simp_all add: canonical_def)
  then show ?thesis using assms by (simp add: py_slice_def Let_def)
qed

lemma ravel_less:
  "list_all2 (\<lambda>i n. i < n) idx dims \<Longrightarrow> ravel dims idx < prod_list dims"
proof (induction idx dims rule: list_all2_induct)
  case Nil
  then show ?case by simp
next
  case (Cons i idx n dims)
  have "i * prod_list dims + ravel dims idx < i * prod_list dims + prod_list dims"
    using Cons.IH by simp
  also have "\<dots> = Suc i * prod_list dims" by simp
  also have "\<dots> \<le> n * prod_list dims"
    using Cons.hyps(1) by (intro mult_le_mono1) simp
  finally show ?case by simp
qed

lemma unravel_ravel:
  "list_all2 (\<lambda>i n. i < n) idx dims \<Longrightarrow> unravel dims (ravel dims idx) = idx"
proof (induction idx dims rule: list_all2_induct)
  case Nil
  then show ?case by simp
next
  case (Cons i idx n dims)
  have lt: "ravel dims idx < prod_list dims" using Cons.hyps(2) by (rule ravel_less)
  then show ?case using Cons.IH by simp
qed

lemma ravel_inject:
  assumes "list_all2 (\<lambda>i n. i < n) idx dims" "list_all2 (\<lambda>i n. i < n) idx' dims"
    and "ravel dims idx = ravel dims idx'"
  shows "idx = idx'"
  using assms unravel_ravel by metis

lemma length_foldl_scatter:
  "length (foldl (scatter_write dims) d ps) = length d"
  by (induction ps arbitrary: d) (simp_all add: scatter_write_def)

lemma foldl_scatter_untouched:
  "p \<notin> (\<lambda>q. ravel dims (map nat (fst q))) ` set ps \<Longrightarrow>
   foldl (scatter_write dims) d ps ! p = d ! p"
  by (induction ps arbitrary: d) (simp_all add: scatter_write_def)

lemma foldl_scatter_written:
  assumes "distinct (map (\<lambda>q. ravel dims (map nat (fst q))) ps)"
    and "(idx, v) \<in> set ps" and "ravel dims (map nat idx) < length d"
  shows "foldl (scatter_write dims) d ps ! ravel dims (map nat idx) = v"
  using assms
proof (induction ps arbitrary: d)
  case Nil
  then show ?case by simp
next
  case (Cons q ps)
  show ?case
  proof (cases "q = (idx, v)")
    case True
    then have "ravel dims (map nat idx) \<notin> (\<lambda>q. ravel dims (map nat (fst q))) ` set ps"
      using Cons.prems(1) by auto
    then have "foldl (scatter_write dims) (scatter_write dims d q) ps ! ravel dims (map nat idx)
        = scatter_write dims d q ! ravel dims (map nat idx)"
      by (rule foldl_scatter_untouched)
    moreover have "scatter_write dims d q ! ravel dims (map nat idx) = v"
      using True Cons.prems(3) by (simp add: scatter_write_def)
    ultimately show ?thesis by simp
  next
    case False
    then have "(idx, v) \<in> set ps" using Cons.prems(2) by auto
    moreover have "distinct (map (\<lambda>q. ravel dims (map nat (fst q))) ps)"
      using Cons.prems(1) by simp
    moreover have "ravel dims (map nat idx) < length (scatter_write dims d q)"
      using Cons.prems(3) by (simp add: scatter_write_def)
    ultimately show ?thesis using Cons.IH by simp
  qed
qed

lemma product3_nth:
  assumes "p < length rs * length cs"
  shows "product_lists [rs, cs, [c]] ! p = [rs ! (p div length cs), cs ! (p mod length cs), c]"
proof -
  let ?yss = "map (\<lambda>i. map (\<lambda>j. [i, j, c]) cs) rs"
  have nc: "0 < length cs"
  proof (rule ccontr)
    assume "\<not> 0 < length cs"
    then have "length cs = 0" by simp
    with assms show False by simp
  qed
  have d: "p div length cs < length rs" using assms by (simp add: less_mult_imp_div_less)
  have m: "p mod length cs < length cs" using nc by simp
  have eq: "product_lists [rs, cs, [c]] = concat ?yss"
    by (simp, simp add: comp_def)
  have blocks: "\<forall>ys \<in> set ?yss. length ys = length cs" by auto
  have "concat ?yss ! p = ?yss ! (p div length cs) ! (p mod length cs)"
    using blocks assms by (intro concat_blocks_nth) simp_all
  then show ?thesis unfolding eq using d m by simp
qed

lemma product3_length: "length (product_lists [rs, cs, [c]]) = length rs * length cs"
  by (simp only: length_product_lists_prod) simp

lemma clipped_kernel:
  assumes rows: "\<forall>row \<in> set K. length row = n" and len: "length K = n"
    and b1: "0 \<le> b1" "0 \<le> e1" "e1 \<le> int n"
    and b2: "0 \<le> b2" "0 \<le> e2" "e2 \<le> int n"
  shows "length (concat (map (py_slice b2 e2) (py_slice b1 e1 K))) = nat (e1 - b1) * nat (e2 - b2)"
    and "p < nat (e1 - b1) * nat (e2 - b2) \<Longrightarrow>
         concat (map (py_slice b2 e2) (py_slice b1 e1 K)) ! p
           = K ! (nat b1 + p div nat (e2 - b2)) ! (nat b2 + p mod nat (e2 - b2))"
proof -
  let ?Kr = "py_slice b1 e1 K"
  let ?yss = "map (py_slice b2 e2) ?Kr"
  let ?m = "nat (e2 - b2)"
  have lKr: "length ?Kr = nat (e1 - b1)"
    using b1 len by (simp add: py_slice_length)
  have Kr_nth: "?Kr ! a = K ! (nat b1 + a)" if "a < nat (e1 - b1)" for a
    using b1 len that by (simp add: py_slice_nth)
  have in_K: "nat b1 + a < n" if "a < nat (e1 - b1)" for a
    using that b1 by linarith
  have row_len: "length (?Kr ! a) = n" if "a < nat (e1 - b1)" for a
    using Kr_nth[OF that] in_K[OF that] rows len by simp
  have blocks: "\<forall>ys \<in> set ?yss. length ys = ?m"
  proof
    fix ys assume "ys \<in> set ?yss"
    then obtain a where a: "a < nat (e1 - b1)" and ys: "ys = py_slice b2 e2 (?Kr ! a)"
      using lKr by (auto simp: in_set_conv_nth)
    show "length ys = ?m"
      unfolding ys using b2 row_len[OF a] by (simp add: py_slice_length)
  qed
  show "length (concat ?yss) = nat (e1 - b1) * ?m"
    using concat_blocks_length[OF blocks] lKr by simp
  show "concat ?yss ! p = K ! (nat b1 + p div ?m) ! (nat b2 + p mod ?m)"
    if p: "p < nat (e1 - b1) * ?m"
  proof -
    have m: "0 < ?m"
    proof (rule ccontr)
      assume "\<not> 0 < ?m"
      then have "?m = 0" by simp
      with p show False by simp
    qed
    have d: "p div ?m < nat (e1 - b1)" using p by (simp add: less_mult_imp_div_less)
    have r: "p mod ?m < ?m" using m by simp
    have "concat ?yss ! p = ?yss ! (p div ?m) ! (p mod ?m)"
      using blocks p lKr by (intro concat_blocks_nth) simp_all
    also have "\<dots> = py_slice b2 e2 (?Kr ! (p div ?m)) ! (p mod ?m)"
      using d lKr by simp
    also have "\<dots> = (?Kr ! (p div ?m)) ! (nat b2 + p mod ?m)"
      using b2 row_len[OF d] r by (intro py_slice_nth) simp_all
    finally show ?thesis using Kr_nth[OF d] by simp
  qed
qed

lemma nat_shift_inject: "0 \<le> i0 \<Longrightarrow> nat (i0 + int a) = nat (i0 + int b) \<Longrightarrow> a = b"
  by linarith

lemma nat_shift_eq: "0 \<le> i0 \<Longrightarrow> i = nat (i0 + int a) \<Longrightarrow> int i = i0 + int a"
  by linarith

lemma scatter_block_cells:
  fixes ups :: "fl list"
  assumes rs: "rs = [i0..i0 + int nr - 1]" and cs: "cs = [j0..j0 + int nc - 1]"
    and ib: "0 \<le> i0" "i0 + int nr \<le> int H"
    and jb: "0 \<le> j0" "j0 + int nc \<le> int W"
    and cb: "0 \<le> c" "c < int C"
    and t: "rows_of t = product_lists [rs, cs, [c]]"
    and ups: "length ups = nr * nc"
  shows "\<exists>hm. tensor_scatter_nd_update (zeros [H, W, C]) t ups = Inr hm
     \<and> shape hm = [H, W, C]
     \<and> length (data hm) = H * W * C
     \<and> (\<forall>i j k. i < H \<and> j < W \<and> k < C \<longrightarrow>
          element_at hm [i, j, k] =
            (if int k = c \<and> i0 \<le> int i \<and> int i < i0 + int nr \<and> j0 \<le> int j \<and> int j < j0 + int nc
             then ups ! (nat (int i - i0) * nc + nat (int j - j0)) else Fin 0))"
proof -
  let ?dims = "[H, W, C]"
  let ?N = "nr * nc"
  define rows where "rows = product_lists [rs, cs, [c]]"
  define key where "key p = ravel ?dims [nat (i0 + int (p div nc)), nat (j0 + int (p mod nc)), nat c]" for p
  have lrs: "length rs = nr" and lcs: "length cs = nc"
    by (simp_all add: rs cs)
  have lrows: "length rows = ?N"
    unfolding rows_def product3_length lrs lcs by (rule refl)
  have nc_pos: "0 < nc" if "p < ?N" for p
  proof (rule ccontr)
    assume "\<not> 0 < nc"
    then have "nc = 0" by simp
    with that show False by simp
  qed
  have dv: "p div nc < nr" if "p < ?N" for p
    using that by (simp add: less_mult_imp_div_less)
  have md: "p mod nc < nc" if "p < ?N" for p
    using nc_pos[OF that] by simp
  have rows_nth: "rows ! p = [i0 + int (p div nc), j0 + int (p mod nc), c]" if "p < ?N" for p
  proof -
    have "rows ! p = [rs ! (p div nc), cs ! (p mod nc), c]"
      using that product3_nth[of p rs cs c] by (simp add: rows_def lrs lcs)
    moreover have "rs ! (p div nc) = i0 + int (p div nc)"
      using dv[OF that] by (simp add: rs)
    moreover have "cs ! (p mod nc) = j0 + int (p mod nc)"
      using md[OF that] by (simp add: cs)
    ultimately show ?thesis by simp
  qed
  have inb: "list_all2 (\<lambda>i n. i < n) [nat (i0 + int a), nat (j0 + int b), nat c] ?dims"
    if "a < nr" "b < nc" for a b
    using that ib jb cb by simp linarith
  have key_lt: "key p < H * W * C" if "p < ?N" for p
    using ravel_less[OF inb[OF dv[OF that] md[OF that]]] by (simp add: key_def)
  have allb: "list_all (index_in_bounds ?dims) rows"
    unfolding list_all_length
  proof (intro allI impI)
    fix p assume "p < length rows"
    then have p: "p < ?N" by (simp add: lrows)
    show "index_in_bounds ?dims (rows ! p)"
      using dv[OF p] md[OF p] ib jb cb by (simp add: rows_nth[OF p] index_in_bounds_def)
  qed
  define d where "d = foldl (scatter_write ?dims) (data (zeros ?dims)) (zip rows ups)"
  define hm where "hm = (zeros ?dims)\<lparr>data := d\<rparr>"
  have t': "rows_of t = rows" unfolding rows_def by (rule t)
  have res: "tensor_scatter_nd_update (zeros ?dims) t ups = Inr hm"
    unfolding tensor_scatter_nd_update_def Let_def t' hm_def d_def
    using allb lrows ups by (simp add: zeros_def fill_def)
  have sh: "shape hm = ?dims" by (simp add: hm_def zeros_def fill_def)
  have ld: "length d = H * W * C"
    by (simp add: d_def length_foldl_scatter zeros_def fill_def)
  have keys: "map (\<lambda>q. ravel ?dims (map nat (fst q))) (zip rows ups) = map key [0..<?N]"
    by (rule nth_equalityI) (simp_all add: lrows ups rows_nth key_def)
  have inj: "p = p'" if "p < ?N" "p' < ?N" "key p = key p'" for p p'
  proof -
    have "[nat (i0 + int (p div nc)), nat (j0 + int (p mod nc)), nat c]
        = [nat (i0 + int (p' div nc)), nat (j0 + int (p' mod nc)), nat c]"
      using that(3) inb[OF dv[OF that(1)] md[OF that(1)]] inb[OF dv[OF that(2)] md[OF that(2)]]
      unfolding key_def by (rule ravel_inject[rotated 2])
    then have "p div nc = p' div nc" "p mod nc = p' mod nc"
      using ib(1) jb(1) by (auto dest: nat_shift_inject)
    then show ?thesis by (metis div_mult_mod_eq)
  qed
  have dist: "distinct (map (\<lambda>q. ravel ?dims (map nat (fst q))) (zip rows ups))"
    unfolding keys distinct_map
    by (auto simp: inj_on_def intro: inj)
  have cell: "element_at hm [i, j, k] =
            (if int k = c \<and> i0 \<le> int i \<and> int i < i0 + int nr \<and> j0 \<le> int j \<and> int j < j0 + int nc
             then ups ! (nat (int i - i0) * nc + nat (int j - j0)) else Fin 0)"
    if ijk: "i < H" "j < W" "k < C" for i j k
  proof (cases "int k = c \<and> i0 \<le> int i \<and> int i < i0 + int nr \<and> j0 \<le> int j \<and> int j < j0 + int nc")
    case True
    define a where "a = nat (int i - i0)"
    define b where "b = nat (int j - j0)"
    define p where "p = a * nc + b"
    have a: "a < nr" and b: "b < nc" using True by (simp_all add: a_def b_def) linarith+
    have "p < Suc a * nc" using b by (simp add: p_def)
    also have "\<dots> \<le> nr * nc" using a by (intro mult_le_mono1) simp
    finally have p: "p < ?N" .
    have pd: "p div nc = a" and pm: "p mod nc = b" using b by (simp_all add: p_def)
    have row: "rows ! p = [int i, int j, c]"
      using True by (simp add: rows_nth[OF p] pd pm a_def b_def)
    have mem: "([int i, int j, c], ups ! p) \<in> set (zip rows ups)"
      using p lrows ups row by (auto simp: in_set_conv_nth intro!: exI[of _ p])
    have kk: "map nat [int i, int j, c] = [i, j, k]" using True by auto
    have "ravel ?dims (map nat [int i, int j, c]) < length (data (zeros ?dims))"
      using key_lt[OF p] True
      by (simp add: key_def pd pm a_def b_def zeros_def fill_def)
    then have "d ! ravel ?dims (map nat [int i, int j, c]) = ups ! p"
      unfolding d_def using dist mem by (intro foldl_scatter_written)
    then show ?thesis using True
      unfolding kk by (simp add: element_at_def hm_def p_def a_def b_def zeros_def fill_def)
  next
    case False
    have bound: "list_all2 (\<lambda>i n. i < n) [i, j, k] ?dims" using ijk by simp
    have notin: "ravel ?dims [i, j, k] \<notin> (\<lambda>q. ravel ?dims (map nat (fst q))) ` set (zip rows ups)"
    proof
      assume "ravel ?dims [i, j, k] \<in> (\<lambda>q. ravel ?dims (map nat (fst q))) ` set (zip rows ups)"
      then have "ravel ?dims [i, j, k] \<in> set (map (\<lambda>q. ravel ?dims (map nat (fst q))) (zip rows ups))"
        by simp
      then obtain p where p: "p < ?N" and eq: "ravel ?dims [i, j, k] = key p"
        unfolding keys by auto
      have "[i, j, k] = [nat (i0 + int (p div nc)), nat (j0 + int (p mod nc)), nat c]"
        using eq bound inb[OF dv[OF p] md[OF p]]
        unfolding key_def by (rule ravel_inject[rotated 2])
      then have "int i = i0 + int (p div nc)" "int j = j0 + int (p mod nc)" "int k = c"
        using ib(1) jb(1) cb(1) by (auto dest: nat_shift_eq)
      then show False using False dv[OF p] md[OF p] by simp
    qed
    have "d ! ravel ?dims [i, j, k] = data (zeros ?dims) ! ravel ?dims [i, j, k]"
      unfolding d_def using notin by (rule foldl_scatter_untouched)
    also have "\<dots> = Fin 0"
      using ravel_less[OF bound] by (simp add: zeros_def fill_def)
    finally show ?thesis
      unfolding if_not_P[OF False] by (simp add: element_at_def hm_def zeros_def fill_def)
  qed
  show ?thesis using res sh ld cell by (intro exI[of _ hm]) (simp add: hm_def)
qed

section \<open>Properties of the heatmap rasterizer\<close>


lemma clip_range_valid:
  assumes "0 \<le> r" "- r - 1 \<le> y" "y \<le> int H + r"
  shows "tf_range (y - min y r) (y + min (int H - y) (r + 1))
       = Inr [y - min y r..y + min (int H - y) (r + 1) - 1]"
proof -
  have "y - min y r \<le> y + min (int H - y) (r + 1)" using assms by linarith
  then show ?thesis by (rule tf_range_valid)
qed


lemma draw_gaussian_unfold:
  assumes "gaussian_penalty r = Inr K"
    and "tf_range (y - min y r) (y + min (int H - y) (r + 1)) = Inr rs"
    and "tf_range (x - min x r) (x + min (int W - x) (r + 1)) = Inr cs"
  shows "gaussian_updates (H, W, C) (c, x, y, r) s =
           Inr (map (\<lambda>g. fmul g (Fin (real_of_int s)))
                  (concat (map (py_slice (r - min x r) (r + min (int W - x) (r + 1)))
                     (py_slice (r - min y r) (r + min (int H - y) (r + 1)) K))))"
    and "heatmap_indices (H, W, C) (c, x, y, r) = cartesian_product [rs, cs, [c]] 1"
    and "draw_gaussian (H, W, C) (c, x, y, r) s =
     bind_result (cartesian_product [rs, cs, [c]] 1)
       (\<lambda>heatmap_indices.
          tensor_scatter_nd_update (zeros [H, W, C]) heatmap_indices
            (map (\<lambda>g. fmul g (Fin (real_of_int s)))
               (concat (map (py_slice (r - min x r) (r + min (int W - x) (r + 1)))
                  (py_slice (r - min y r) (r + min (int H - y) (r + 1)) K)))))"
  using assms
  by (simp_all add: draw_gaussian_def heatmap_indices_def gaussian_updates_def clip_margins_def
      Let_def bind_result_def)


lemma draw_gaussian_negative_radius:
  assumes "r < 0"
  shows "draw_gaussian (H, W, C) (c, x, y, r) s = Inl RangeInvalid"
  using gaussian_penalty_negative[OF assms]
  by (simp add: draw_gaussian_def gaussian_updates_def clip_margins_def Let_def bind_result_def)

lemma draw_gaussian_clipped:
  assumes r: "0 \<le> r" and xl: "- r - 1 \<le> x" and xb: "x \<le> int W + r"
    and yl: "- r - 1 \<le> y" and yb: "y \<le> int H + r"
    and cb: "0 \<le> c" "c < int C"
  shows "\<exists>hm K. gaussian_penalty r = Inr K
     \<and> draw_gaussian (H, W, C) (c, x, y, r) s = Inr hm
     \<and> shape hm = [H, W, C]
     \<and> length (data hm) = H * W * C
     \<and> (\<forall>i j k. i < H \<and> j < W \<and> k < C \<longrightarrow>
          element_at hm [i, j, k] =
            (if int k = c \<and> y - r \<le> int i \<and> int i \<le> y + r \<and> x - r \<le> int j \<and> int j \<le> x + r
             then fmul (K ! nat (int i - y + r) ! nat (int j - x + r)) (Fin (real_of_int s))
             else Fin 0))"
proof -
  define top where "top = min y r"
  define bottom where "bottom = min (int H - y) (r + 1)"
  define left where "left = min x r"
  define right where "right = min (int W - x) (r + 1)"
  define nr where "nr = nat (top + bottom)"
  define nc where "nc = nat (left + right)"
  define i0 where "i0 = y - top"
  define j0 where "j0 = x - left"
  define n where "n = nat (2 * r + 1)"
  obtain K where K: "gaussian_penalty r = Inr K"
    and Klen: "length K = n" and Krows: "\<forall>row \<in> set K. length row = n"
    using gaussian_penalty_kernel[OF r] unfolding n_def by blast
  define flat where "flat = concat (map (py_slice (r - left) (r + right)) (py_slice (r - top) (r + bottom) K))"
  define ups where "ups = map (\<lambda>g. fmul g (Fin (real_of_int s))) flat"
  define rs where "rs = [y - top..y + bottom - 1]"
  define cs where "cs = [x - left..x + right - 1]"
  have trs: "tf_range (y - min y r) (y + min (int H - y) (r + 1)) = Inr rs"
    unfolding rs_def top_def bottom_def using r yl yb by (rule clip_range_valid)
  have tcs: "tf_range (x - min x r) (x + min (int W - x) (r + 1)) = Inr cs"
    unfolding cs_def left_def right_def using r xl xb by (rule clip_range_valid)
  have b1: "0 \<le> r - top" "0 \<le> r + bottom" "r + bottom \<le> int n"
    using r yb by (simp_all add: top_def bottom_def n_def)
  have b2: "0 \<le> r - left" "0 \<le> r + right" "r + right \<le> int n"
    using r xb by (simp_all add: left_def right_def n_def)
  have e1: "nat (r + bottom - (r - top)) = nr" and e2: "nat (r + right - (r - left)) = nc"
    by (simp_all add: nr_def nc_def add.commute)
  have lflat: "length flat = nr * nc"
    unfolding flat_def using clipped_kernel(1)[OF Krows Klen b1 b2] e1 e2 by simp
  have flat_nth: "flat ! p = K ! (nat (r - top) + p div nc) ! (nat (r - left) + p mod nc)"
    if "p < nr * nc" for p
    unfolding flat_def using clipped_kernel(2)[OF Krows Klen b1 b2, of p] that e1 e2 by simp
  have lups: "length ups = nr * nc" by (simp add: ups_def lflat)
  have tb: "0 \<le> top + bottom" using r yl yb unfolding top_def bottom_def by linarith
  have lr: "0 \<le> left + right" using r xl xb unfolding left_def right_def by linarith
  have rs': "rs = [i0..i0 + int nr - 1]"
    using tb by (simp add: rs_def i0_def nr_def)
  have cs': "cs = [j0..j0 + int nc - 1]"
    using lr by (simp add: cs_def j0_def nc_def)
  have ib: "0 \<le> i0" "i0 + int nr \<le> int H"
    using r yl yb unfolding i0_def nr_def top_def bottom_def by linarith+
  have jb: "0 \<le> j0" "j0 + int nc \<le> int W"
    using r xl xb unfolding j0_def nc_def left_def right_def by linarith+
  from cartesian_product_rows[of "[rs, cs, [c]]" 1]
  obtain t where t: "cartesian_product [rs, cs, [c]] 1 = Inr t"
    and trows: "rows_of t = product_lists [rs, cs, [c]]"
    by auto
  from scatter_block_cells[OF rs' cs' ib jb cb trows lups, of ]
  obtain hm where res: "tensor_scatter_nd_update (zeros [H, W, C]) t ups = Inr hm"
    and sh: "shape hm = [H, W, C]" and ld: "length (data hm) = H * W * C"
    and cells: "\<And>i j k. i < H \<and> j < W \<and> k < C \<Longrightarrow>
          element_at hm [i, j, k] =
            (if int k = c \<and> i0 \<le> int i \<and> int i < i0 + int nr \<and> j0 \<le> int j \<and> int j < j0 + int nc
             then ups ! (nat (int i - i0) * nc + nat (int j - j0)) else Fin 0)"
    by blast
  have dg: "draw_gaussian (H, W, C) (c, x, y, r) s = Inr hm"
    unfolding draw_gaussian_unfold(3)[OF K trs tcs]
    using t res
    by (simp add: bind_result_def ups_def flat_def top_def bottom_def left_def right_def)
  have cell: "element_at hm [i, j, k] =
            (if int k = c \<and> y - r \<le> int i \<and> int i \<le> y + r \<and> x - r \<le> int j \<and> int j \<le> x + r
             then fmul (K ! nat (int i - y + r) ! nat (int j - x + r)) (Fin (real_of_int s))
             else Fin 0)"
    if ijk: "i < H \<and> j < W \<and> k < C" for i j k
  proof -
    have iffi: "(i0 \<le> int i \<and> int i < i0 + int nr) \<longleftrightarrow> (y - r \<le> int i \<and> int i \<le> y + r)"
      using ijk r yl yb unfolding i0_def nr_def top_def bottom_def by linarith
    have iffj: "(j0 \<le> int j \<and> int j < j0 + int nc) \<longleftrightarrow> (x - r \<le> int j \<and> int j \<le> x + r)"
      using ijk r xl xb unfolding j0_def nc_def left_def right_def by linarith
    show ?thesis
    proof (cases "int k = c \<and> y - r \<le> int i \<and> int i \<le> y + r \<and> x - r \<le> int j \<and> int j \<le> x + r")
      case True
      then have inside: "int k = c \<and> i0 \<le> int i \<and> int i < i0 + int nr \<and> j0 \<le> int j \<and> int j < j0 + int nc"
        using iffi iffj by blast
      define a where "a = nat (int i - i0)"
      define b where "b = nat (int j - j0)"
      have a: "a < nr" and b: "b < nc" using inside by (simp_all add: a_def b_def) linarith+
      have "a * nc + b < Suc a * nc" using b by simp
      also have "\<dots> \<le> nr * nc" using a by (intro mult_le_mono1) simp
      finally have p: "a * nc + b < nr * nc" .
      have pd: "(a * nc + b) div nc = a" and pm: "(a * nc + b) mod nc = b" using b by simp_all
      have ra: "nat (r - top) + a = nat (int i - y + r)"
        using inside b1(1) by (simp add: a_def i0_def) linarith
      have rb: "nat (r - left) + b = nat (int j - x + r)"
        using inside b2(1) by (simp add: b_def j0_def) linarith
      have "element_at hm [i, j, k] = ups ! (a * nc + b)"
        using cells[OF ijk] inside by (simp add: a_def b_def)
      also have "\<dots> = fmul (flat ! (a * nc + b)) (Fin (real_of_int s))"
        using p lflat by (simp add: ups_def)
      also have "flat ! (a * nc + b) = K ! nat (int i - y + r) ! nat (int j - x + r)"
        unfolding flat_nth[OF p] pd pm ra rb ..
      finally show ?thesis unfolding if_P[OF True] .
    next
      case False
      then have outside: "\<not> (int k = c \<and> i0 \<le> int i \<and> int i < i0 + int nr \<and> j0 \<le> int j \<and> int j < j0 + int nc)"
        using iffi iffj by blast
      show ?thesis unfolding if_not_P[OF False] using cells[OF ijk] unfolding if_not_P[OF outside] .
    qed
  qed
  show ?thesis using K dg sh ld cell by (intro exI[of _ hm] exI[of _ K]) simp
qed



lemma kernel_positive:
  assumes "1 \<le> r" "gaussian_penalty r = Inr K" "int a \<le> 2 * r" "int b \<le> 2 * r"
  shows "\<exists>e. K ! a ! b = Fin e \<and> 0 < e"
proof -
  have r0: "0 \<le> r" using assms(1) by simp
  from gaussian_penalty_kernel[OF r0] assms(2)
  have nth: "\<And>i j. int i \<le> 2 * r \<and> int j \<le> 2 * r \<Longrightarrow>
          K ! i ! j = fexp (gaussian_exponent (Fin (real_of_int r / 3))
                        (Fin (real_of_int (int i - r))) (Fin (real_of_int (int j - r))))"
    by auto
  have s: "real_of_int r / 3 \<noteq> 0" using assms(1) by simp
  have ab: "int a \<le> 2 * r \<and> int b \<le> 2 * r" using assms(3,4) by simp
  show ?thesis
    unfolding nth[OF ab] gaussian_exponent_Fin[OF s] by simp
qed

lemma scaled_kernel_nonzero:
  assumes "1 \<le> r" "gaussian_penalty r = Inr K" "int a \<le> 2 * r" "int b \<le> 2 * r" "s \<noteq> 0"
  shows "fmul (K ! a ! b) (Fin (real_of_int s)) \<noteq> Fin 0"
proof -
  obtain e where "K ! a ! b = Fin e" "0 < e"
    using kernel_positive[OF assms(1-4)] by blast
  then show ?thesis using assms(5) by simp
qed

text \<open>
  Claim C1. For a blob whose kernel footprint lies inside the heatmap
  (\<open>radius \<le> x < W - radius - 1\<close>, \<open>radius \<le> y < H - radius - 1\<close>, \<open>0 \<le> class < C\<close>,
  \<open>radius \<ge> 1\<close>) \<open>draw_gaussian\<close> returns a buffer of shape \<open>(H, W, C)\<close>; the cell
  \<open>(i, j, k)\<close> of the \<open>(2 radius + 1) \<times> (2 radius + 1)\<close> block around \<open>(y, x)\<close> in
  channel \<open>class\<close> holds the value of the kernel \<open>K\<close> of that radius at
  \<open>(i - y + radius, j - x + radius)\<close> times the scaling factor, every other cell is
  zero, and for a scaling factor other than zero the cells of the block are exactly the
  cells that are not zero.
\<close>

theorem draw_gaussian_inside:
  assumes "1 \<le> r" "r \<le> x" "x < int W - r - 1" "r \<le> y" "y < int H - r - 1"
    and "0 \<le> c" "c < int C"
  shows "\<exists>hm K. gaussian_penalty r = Inr K
     \<and> draw_gaussian (H, W, C) (c, x, y, r) s = Inr hm
     \<and> shape hm = [H, W, C]
     \<and> length (data hm) = H * W * C
     \<and> (\<forall>i j k. i < H \<and> j < W \<and> k < C \<longrightarrow>
          element_at hm [i, j, k] =
            (if int k = c \<and> y - r \<le> int i \<and> int i \<le> y + r \<and> x - r \<le> int j \<and> int j \<le> x + r
             then fmul (K ! nat (int i - y + r) ! nat (int j - x + r)) (Fin (real_of_int s))
             else Fin 0)
          \<and> (s \<noteq> 0 \<longrightarrow>
               (element_at hm [i, j, k] \<noteq> Fin 0) =
               (int k = c \<and> y - r \<le> int i \<and> int i \<le> y + r \<and> x - r \<le> int j \<and> int j \<le> x + r)))"
proof -
  have r: "0 \<le> r" and xl: "- r - 1 \<le> x" and xb: "x \<le> int W + r"
    and yl: "- r - 1 \<le> y" and yb: "y \<le> int H + r"
    using assms by simp_all
  from draw_gaussian_clipped[OF r xl xb yl yb assms(6,7), of s]
  obtain hm K where K: "gaussian_penalty r = Inr K"
    and res: "draw_gaussian (H, W, C) (c, x, y, r) s = Inr hm"
    and sh: "shape hm = [H, W, C]" and ld: "length (data hm) = H * W * C"
    and cells: "\<And>i j k. i < H \<and> j < W \<and> k < C \<Longrightarrow>
          element_at hm [i, j, k] =
            (if int k = c \<and> y - r \<le> int i \<and> int i \<le> y + r \<and> x - r \<le> int j \<and> int j \<le> x + r
             then fmul (K ! nat (int i - y + r) ! nat (int j - x + r)) (Fin (real_of_int s))
             else Fin 0)"
    by blast
  have nz: "(element_at hm [i, j, k] \<noteq> Fin 0) =
        (int k = c \<and> y - r \<le> int i \<and> int i \<le> y + r \<and> x - r \<le> int j \<and> int j \<le> x + r)"
    if ijk: "i < H \<and> j < W \<and> k < C" and s: "s \<noteq> 0" for i j k
  proof (cases "int k = c \<and> y - r \<le> int i \<and> int i \<le> y + r \<and> x - r \<le> int j \<and> int j \<le> x + r")
    case True
    have a: "int (nat (int i - y + r)) \<le> 2 * r" and b: "int (nat (int j - x + r)) \<le> 2 * r"
      using True by linarith+
    have "element_at hm [i, j, k] =
        fmul (K ! nat (int i - y + r) ! nat (int j - x + r)) (Fin (real_of_int s))"
      using cells[OF ijk] unfolding if_P[OF True] .
    then have "element_at hm [i, j, k] \<noteq> Fin 0"
      using scaled_kernel_nonzero[OF assms(1) K a b s] by simp
    then show ?thesis using True by blast
  next
    case False
    have "element_at hm [i, j, k] = Fin 0"
      using cells[OF ijk] unfolding if_not_P[OF False] .
    then show ?thesis using False by blast
  qed
  show ?thesis
    using K res sh ld cells nz by (intro exI[of _ hm] exI[of _ K]) blast
qed

theorem draw_gaussian_inside_witness:
  "(1::int) \<le> 1 \<and> (1::int) \<le> 1 \<and> (1::int) < int 4 - 1 - 1 \<and> (0::int) \<le> 0 \<and> (0::int) < int 1
   \<and> (\<exists>hm. draw_gaussian (4, 4, 1) (0, 1, 1, 1) 1 = Inr hm \<and> shape hm = [4, 4, 1]
         \<and> element_at hm [3, 3, 0] = Fin 0)"
proof -
  have h: "(1::int) \<le> 1" "(1::int) < int 4 - 1 - 1" "(0::int) \<le> 0" "(0::int) < int 1"
    by simp_all
  from draw_gaussian_inside[OF h(1) h(1) h(2) h(1) h(2) h(3) h(4), of 1]
  obtain hm K where res: "draw_gaussian (4, 4, 1) (0, 1, 1, 1) 1 = Inr hm"
    and sh: "shape hm = [4, 4, 1]"
    and cells: "\<forall>i j k. i < 4 \<and> j < 4 \<and> k < 1 \<longrightarrow>
          element_at hm [i, j, k] =
            (if int k = 0 \<and> 1 - 1 \<le> int i \<and> int i \<le> 1 + 1 \<and> 1 - 1 \<le> int j \<and> int j \<le> 1 + 1
             then fmul (K ! nat (int i - 1 + 1) ! nat (int j - 1 + 1))
                    (Fin (real_of_int 1))
             else Fin 0)
          \<and> ((1::int) \<noteq> 0 \<longrightarrow>
               (element_at hm [i, j, k] \<noteq> Fin 0) =
               (int k = 0 \<and> 1 - 1 \<le> int i \<and> int i \<le> 1 + 1 \<and> 1 - 1 \<le> int j \<and> int j \<le> 1 + 1))"
    by blast
  have "(3::nat) < 4 \<and> (3::nat) < 4 \<and> (0::nat) < 1" by simp
  with cells have "element_at hm [3, 3, 0] = Fin 0" by simp
  with res sh h show ?thesis by blast
qed





section \<open>Properties of the fixed-length padder\<close>


















end
